theory Spec2Isabelle
  imports Main "HOL-Library.Sublist"
begin

section \<open>Strings\<close>

text \<open>
  A Python \<open>str\<close> is a sequence of Unicode code points, so a string is a list of
  code points. The program uses two characters outside ASCII (the em dash U+2014 and the
  en dash U+2013), and both \<open>str.strip()\<close> and the regular-expression class \<open>\s\<close>
  work on Unicode white space. \<open>u\<close> turns an ASCII literal into such a string.
\<close>

type_synonym ustr = "nat list"

definition u :: "string \<Rightarrow> ustr" where
  "u s = map of_char s"

definition nl :: nat where
  "nl = 0x0A"

definition em_dash :: nat where
  "em_dash = 0x2014"

definition en_dash :: nat where
  "en_dash = 0x2013"

text \<open>
  The characters for which \<open>str.isspace()\<close> holds: the ones \<open>str.strip()\<close>
  removes and the ones \<open>\s\<close> matches in a \<open>str\<close> pattern.
\<close>

definition isspace :: "nat \<Rightarrow> bool" where
  "isspace c \<longleftrightarrow>
     (0x09 \<le> c \<and> c \<le> 0x0D) \<or> (0x1C \<le> c \<and> c \<le> 0x20) \<or> c = 0x85 \<or> c = 0xA0 \<or>
     c = 0x1680 \<or> (0x2000 \<le> c \<and> c \<le> 0x200A) \<or> c = 0x2028 \<or> c = 0x2029 \<or>
     c = 0x202F \<or> c = 0x205F \<or> c = 0x3000"

definition lstrip :: "ustr \<Rightarrow> ustr" where
  "lstrip s = dropWhile isspace s"

definition rstrip :: "ustr \<Rightarrow> ustr" where
  "rstrip s = rev (dropWhile isspace (rev s))"

text \<open>\<open>s.strip()\<close>: white space removed at both ends.\<close>

definition strip :: "ustr \<Rightarrow> ustr" where
  "strip s = rstrip (lstrip s)"

text \<open>\<open>sep.join(parts)\<close>.\<close>

fun join :: "ustr \<Rightarrow> ustr list \<Rightarrow> ustr" where
  "join sep [] = []"
| "join sep [x] = x"
| "join sep (x # y # ys) = x @ sep @ join sep (y # ys)"

text \<open>\<open>s.split("\n")\<close>: the lines of a string.\<close>

fun split_lines :: "ustr \<Rightarrow> ustr list" where
  "split_lines [] = [[]]"
| "split_lines (c # cs) =
     (if c = nl then [] # split_lines cs
      else (case split_lines cs of [] \<Rightarrow> [[c]] | l # ls \<Rightarrow> (c # l) # ls))"

section \<open>Request and response models\<close>

record tarot_card_input =
  name :: ustr
  suit :: "ustr option"
  number :: "int option"
  position :: ustr
  is_reversed :: bool
  upright_meaning :: ustr
  reversed_meaning :: ustr
  card_keywords :: "ustr option"
  imageName :: "ustr option"
  arcana :: "ustr option"

record spread_request =
  spread_type :: ustr
  cards :: "tarot_card_input list"

record spread_response =
  response_interpretation :: ustr

text \<open>\<open>req.cards[0]\<close> raises \<open>IndexError\<close> on an empty list.\<close>

datatype py_error = IndexError

section \<open>Prompt building\<close>

text \<open>
  The f-string of the daily branch, before \<open>.strip()\<close>: a newline, the fixed text
  with the card's name and orientation, and the line of the meaning.
\<close>

definition daily_body :: "ustr \<Rightarrow> ustr \<Rightarrow> ustr" where
  \<open>daily_body card_name orientation =
     u ''You are a tarot reader. Write an interpretation for a SINGLE CARD daily draw.'' @ [nl] @
     [nl] @
     u ''STRICT RULES:'' @ [nl] @
     u ''- Do NOT use Past/Present/Future.'' @ [nl] @
     u ''- Do NOT include greetings or filler like "Certainly!", "Sure!", "Of course!".'' @ [nl] @
     u ''- Do NOT mention that you're an AI.'' @ [nl] @
     u ''- Output ONLY in this exact structure:'' @ [nl] @
     [nl] @
     u ''**Daily Card '' @ [em_dash] @ u '' '' @ card_name @ u '' ('' @ orientation @ u ''):**'' @ [nl] @
     u ''<1'' @ [en_dash] @ u ''2 short paragraphs>'' @ [nl] @
     [nl] @
     u ''**Overall Message:**'' @ [nl] @
     u ''<1 short paragraph>'' @ [nl] @
     [nl] @
     u ''Card meaning reference (use as guidance, do not quote verbatim):''\<close>

definition daily_template :: "ustr \<Rightarrow> ustr \<Rightarrow> ustr \<Rightarrow> ustr" where
  "daily_template card_name orientation meaning =
     [nl] @ daily_body card_name orientation @ [nl] @ meaning @ [nl]"

text \<open>The fixed first lines of the multi-card prompt.\<close>

definition multi_lines :: "ustr list" where
  \<open>multi_lines =
     [u ''You are a tarot reader. Interpret the following spread.'',
      u '''',
      u ''STRICT RULES:'',
      u ''- Do NOT include greetings or filler like "Certainly!", "Sure!", "Of course!".'',
      u ''- For EACH card, output exactly one section in this format:'',
      u ''  **<Position> '' @ [em_dash] @ u '' <Card Name> (<Upright/Reversed>):**'',
      u ''  <1 paragraph interpretation>'',
      u ''- End with:'',
      u ''  **Putting It All Together:**'',
      u ''  <1 paragraph synthesis>'',
      u '''',
      u ''CARDS:'']\<close>

text \<open>The line the loop appends for one card.\<close>

definition card_line :: "tarot_card_input \<Rightarrow> ustr" where
  "card_line c =
     (let orientation = (if is_reversed c then u ''Reversed'' else u ''Upright'');
          meaning = (if is_reversed c then reversed_meaning c else upright_meaning c)
      in u ''- Position: '' @ position c @ u '' | Card: '' @ name c @
         u '' | Orientation: '' @ orientation @ u '' | MeaningRef: '' @ meaning)"

definition build_prompt :: "spread_request \<Rightarrow> py_error + ustr" where
  "build_prompt req =
     (let n = length (cards req);
          is_daily = (spread_type req = u ''daily'' \<or> n = 1)
      in if is_daily then
           (case cards req of
              [] \<Rightarrow> Inl IndexError
            | c # _ \<Rightarrow>
                let orientation = (if is_reversed c then u ''Reversed'' else u ''Upright'');
                    meaning = (if is_reversed c then reversed_meaning c else upright_meaning c)
                in Inr (strip (daily_template (name c) orientation meaning)))
         else
           Inr (join [nl] (foldl (\<lambda>lines c. lines @ [card_line c]) multi_lines (cards req))))"

section \<open>Regular expressions\<close>

text \<open>
  The two \<open>re.sub\<close> calls are modelled by a backtracking matcher for the part of
  the pattern language that the program's patterns use: the start anchor, one-character
  classes, sequence, ordered alternation, and the greedy and the lazy star of a
  one-character class. Groups only capture, and the replacement is the empty string
  without back-references, so they leave no trace in the pattern. \<open>X+\<close> is \<open>XX*\<close> and
  \<open>X?\<close> is \<open>X|\<close> (the empty alternative second).
\<close>

datatype regex =
    Eps
  | Bol
  | Sym "nat \<Rightarrow> bool"
  | Seq regex regex
  | Alt regex regex
  | Star "nat \<Rightarrow> bool"
  | Lazy "nat \<Rightarrow> bool"

text \<open>
  A continuation receives the position reached and the rest of the text, and returns the
  end of the whole match or fails; a failure makes the matcher try its next choice.
  The greedy star takes as many characters as it can and gives them back one at a time.
\<close>

fun star_greedy :: "(nat \<Rightarrow> bool) \<Rightarrow> nat \<Rightarrow> ustr \<Rightarrow> (nat \<Rightarrow> ustr \<Rightarrow> (nat \<times> ustr) option)
    \<Rightarrow> (nat \<times> ustr) option" where
  "star_greedy p i [] k = k i []"
| "star_greedy p i (c # cs) k =
     (if p c then
        (case star_greedy p (Suc i) cs k of Some r \<Rightarrow> Some r | None \<Rightarrow> k i (c # cs))
      else k i (c # cs))"

text \<open>The lazy star takes as few characters as it can and one more after each failure.\<close>

fun star_lazy :: "(nat \<Rightarrow> bool) \<Rightarrow> nat \<Rightarrow> ustr \<Rightarrow> (nat \<Rightarrow> ustr \<Rightarrow> (nat \<times> ustr) option)
    \<Rightarrow> (nat \<times> ustr) option" where
  "star_lazy p i [] k = k i []"
| "star_lazy p i (c # cs) k =
     (case k i (c # cs) of
        Some r \<Rightarrow> Some r
      | None \<Rightarrow> if p c then star_lazy p (Suc i) cs k else None)"

fun rmatch :: "regex \<Rightarrow> nat \<Rightarrow> ustr \<Rightarrow> (nat \<Rightarrow> ustr \<Rightarrow> (nat \<times> ustr) option)
    \<Rightarrow> (nat \<times> ustr) option" where
  "rmatch Eps i s k = k i s"
| "rmatch Bol i s k = (if i = 0 then k i s else None)"
| "rmatch (Sym p) i s k = (case s of [] \<Rightarrow> None | c # cs \<Rightarrow> if p c then k (Suc i) cs else None)"
| "rmatch (Seq a b) i s k = rmatch a i s (\<lambda>j t. rmatch b j t k)"
| "rmatch (Alt a b) i s k = (case rmatch a i s k of Some r \<Rightarrow> Some r | None \<Rightarrow> rmatch b i s k)"
| "rmatch (Star p) i s k = star_greedy p i s k"
| "rmatch (Lazy p) i s k = star_lazy p i s k"

text \<open>A match that starts at position \<open>i\<close>, where \<open>s\<close> is the text from there on.\<close>

definition match_at :: "regex \<Rightarrow> nat \<Rightarrow> ustr \<Rightarrow> (nat \<times> ustr) option" where
  "match_at r i s = rmatch r i s (\<lambda>j t. Some (j, t))"

text \<open>
  \<open>re.sub(pattern, repl, text)\<close> for a replacement without back-references: every
  leftmost non-overlapping match is replaced; after an empty match the next character is
  copied and the search goes on behind it.
\<close>

function re_sub_from :: "regex \<Rightarrow> ustr \<Rightarrow> nat \<Rightarrow> ustr \<Rightarrow> ustr" where
  "re_sub_from r repl i s =
     (case match_at r i s of
        Some (j, t) \<Rightarrow>
          if length t < length s then repl @ re_sub_from r repl j t
          else (case s of [] \<Rightarrow> repl | c # cs \<Rightarrow> repl @ c # re_sub_from r repl (Suc i) cs)
      | None \<Rightarrow> (case s of [] \<Rightarrow> [] | c # cs \<Rightarrow> c # re_sub_from r repl (Suc i) cs))"
  by pat_completeness auto
termination
  by (relation "measure (\<lambda>(r, repl, i, s). length s)") auto

definition re_sub :: "regex \<Rightarrow> ustr \<Rightarrow> ustr \<Rightarrow> ustr" where
  "re_sub r repl s = re_sub_from r repl 0 s"

text \<open>
  Both patterns are compiled with \<open>re.IGNORECASE\<close>. A literal that is an ASCII letter
  then matches the characters whose lower case is that letter (its two ASCII cases,
  U+0130 for \<open>i\<close> and the Kelvin sign U+212A for \<open>k\<close>) and the characters the
  \<open>re\<close> module treats as equivalent to it (the dotless i U+0131 for \<open>i\<close>, the long
  s U+017F for \<open>s\<close>). A literal without case, such as \<open>!\<close>, \<open>*\<close>, the space or the
  em dash, matches itself only. The patterns hold no other literals.
\<close>

definition ci_lit :: "nat \<Rightarrow> nat \<Rightarrow> bool" where
  "ci_lit p c =
     (let lo = (if 0x41 \<le> p \<and> p \<le> 0x5A then p + 0x20 else p)
      in if 0x61 \<le> lo \<and> lo \<le> 0x7A then
           c = lo \<or> c + 0x20 = lo \<or>
           (lo = 0x69 \<and> (c = 0x130 \<or> c = 0x131)) \<or>
           (lo = 0x73 \<and> c = 0x17F) \<or>
           (lo = 0x6B \<and> c = 0x212A)
         else c = p)"

definition ilit :: "nat \<Rightarrow> regex" where
  "ilit p = Sym (ci_lit p)"

text \<open>A run of literal characters of the pattern.\<close>

definition iword :: "string \<Rightarrow> regex" where
  "iword w = foldr (\<lambda>c r. Seq (ilit (of_char c)) r) w Eps"

definition seqs :: "regex list \<Rightarrow> regex" where
  "seqs rs = foldr Seq rs Eps"

text \<open>\<^verbatim>\<open>^\s*(Certainly!|Sure!|Of course!|Absolutely!|Okay!|Alright!)[^\n]*\n+\<close>\<close>

definition opener_re :: regex where
  "opener_re =
     seqs [Bol,
           Star isspace,
           Alt (iword ''Certainly!'') (Alt (iword ''Sure!'') (Alt (iword ''Of course!'')
             (Alt (iword ''Absolutely!'') (Alt (iword ''Okay!'') (iword ''Alright!''))))),
           Star (\<lambda>c. c \<noteq> nl),
           Sym (\<lambda>c. c = nl), Star (\<lambda>c. c = nl)]"

text \<open>
  \<^verbatim>\<open>\*\*\s*(Past|Present|Future)\s*\<close>\<open>D\<close>\<^verbatim>\<open>.*?\*\*:?(\s*)\<close>, where \<open>D\<close> stands
  for the em dash (U+2014) and the dot matches every character but the newline.
\<close>

definition ppf_re :: regex where
  "ppf_re =
     seqs [iword ''**'',
           Star isspace,
           Alt (iword ''Past'') (Alt (iword ''Present'') (iword ''Future'')),
           Star isspace,
           ilit em_dash,
           Lazy (\<lambda>c. c \<noteq> nl),
           iword ''**'',
           Alt (ilit (of_char CHR '':'')) Eps,
           Star isspace]"

section \<open>Output normalization\<close>

definition daily_marker :: ustr where
  "daily_marker = u ''**Daily Card''"

text \<open>The header the daily branch prepends, up to its newline.\<close>

definition daily_header :: "ustr \<Rightarrow> ustr \<Rightarrow> ustr" where
  "daily_header card_name orientation =
     u ''**Daily Card '' @ [em_dash] @ u '' '' @ card_name @ u '' ('' @ orientation @ u ''):**''"

definition normalize_output :: "spread_request \<Rightarrow> ustr \<Rightarrow> py_error + ustr" where
  "normalize_output req text0 =
     (let n = length (cards req);
          is_daily = (spread_type req = u ''daily'' \<or> n = 1);
          text1 = strip (re_sub opener_re [] text0)
      in if is_daily then
           (let text2 = strip (re_sub ppf_re [] text1)
            in if \<not> sublist daily_marker text2 then
                 (case cards req of
                    [] \<Rightarrow> Inl IndexError
                  | c # _ \<Rightarrow>
                      let orientation = (if is_reversed c then u ''Reversed'' else u ''Upright'');
                          text3 = strip (daily_header (name c) orientation @ [nl] @ text2)
                      in Inr (strip text3))
               else Inr (strip text2))
         else Inr (strip text1))"

section \<open>The route\<close>

text \<open>
  The completion service is outside the program: the handler is given it as a function
  from the call's arguments to what the call does, which is to raise an exception with
  a message or to return a response. A response carries \<open>output\<close>, which may be
  missing; an output item has a type and a content, a content part may have a text.
\<close>

record completion_call =
  call_model :: ustr
  call_input :: ustr
  call_max_output_tokens :: nat

datatype content_part = Part (part_text: "ustr option")

datatype output_item = Item (item_type: "ustr option") (item_content: "content_part list option")

datatype completion = Raises ustr | Returns "output_item list option"

text \<open>
  What the handler ends with: an \<open>HTTPException\<close> with its status code and detail,
  or an exception nobody catches.
\<close>

datatype failure = HTTPException nat ustr | Uncaught py_error

text \<open>The loops that collect \<open>text_parts\<close>.\<close>

definition part_texts :: "content_part list \<Rightarrow> ustr list" where
  "part_texts parts =
     concat (map (\<lambda>part. case part_text part of
                            None \<Rightarrow> []
                          | Some t \<Rightarrow> if t \<noteq> [] then [t] else []) parts)"

definition collect_text_parts :: "output_item list option \<Rightarrow> ustr list" where
  "collect_text_parts output =
     (case output of
        None \<Rightarrow> []
      | Some items \<Rightarrow>
          concat (map (\<lambda>item.
            if item_type item = Some (u ''message'') then
              part_texts (case item_content item of None \<Rightarrow> [] | Some parts \<Rightarrow> parts)
            else []) items))"

definition fallback_text :: ustr where
  "fallback_text = u ''I'm sorry, I couldn't interpret this spread right now.''"

text \<open>The arguments of the one call to \<open>client.responses.create\<close>.\<close>

definition completion_request :: "ustr \<Rightarrow> completion_call" where
  "completion_request prompt =
     \<lparr>call_model = u ''gpt-4.1-mini'',
      call_input =
        u ''You are a tarot reader. Be warm, clear, and realistic. '' @
        u ''Follow the user-provided STRICT RULES exactly.'' @ [nl, nl] @
        prompt,
      call_max_output_tokens = 700\<rparr>"

text \<open>
  The handler returns its result together with the calls it made to the completion
  service, in order.
\<close>

definition interpret_spread ::
    "(completion_call \<Rightarrow> completion) \<Rightarrow> spread_request
      \<Rightarrow> (failure + spread_response) \<times> completion_call list" where
  "interpret_spread client req =
     (if cards req = [] then (Inl (HTTPException 400 (u ''No cards provided'')), [])
      else
        (case build_prompt req of
           Inl e \<Rightarrow> (Inl (Uncaught e), [])
         | Inr prompt \<Rightarrow>
             let call = completion_request prompt
             in (case client call of
                   Raises e \<Rightarrow>
                     (Inl (HTTPException 500 (u ''OpenAI request failed: '' @ e)), [call])
                 | Returns output \<Rightarrow>
                     let text_parts = collect_text_parts output;
                         text1 = strip (concat text_parts);
                         text2 = (if text1 = [] then fallback_text else text1)
                     in (case normalize_output req text2 of
                           Inl e \<Rightarrow> (Inl (Uncaught e), [call])
                         | Inr text3 \<Rightarrow> (Inr \<lparr>response_interpretation = text3\<rparr>, [call])))))"

section \<open>The stages of the two functions\<close>

text \<open>
  Names for the classification both functions compute, for the values they select from a
  card and for the stages of \<open>normalize_output\<close>, used to state what the functions
  return.
\<close>

definition classified_daily :: "spread_request \<Rightarrow> bool" where
  "classified_daily req \<longleftrightarrow> spread_type req = u ''daily'' \<or> length (cards req) = 1"

definition orientation_of :: "tarot_card_input \<Rightarrow> ustr" where
  "orientation_of c = (if is_reversed c then u ''Reversed'' else u ''Upright'')"

definition meaning_of :: "tarot_card_input \<Rightarrow> ustr" where
  "meaning_of c = (if is_reversed c then reversed_meaning c else upright_meaning c)"

definition daily_prompt :: "tarot_card_input \<Rightarrow> ustr" where
  "daily_prompt c = strip (daily_template (name c) (orientation_of c) (meaning_of c))"

definition multi_prompt :: "tarot_card_input list \<Rightarrow> ustr" where
  "multi_prompt cs = join [nl] (multi_lines @ map card_line cs)"

definition opener_stripped :: "ustr \<Rightarrow> ustr" where
  "opener_stripped text0 = strip (re_sub opener_re [] text0)"

definition headings_removed :: "ustr \<Rightarrow> ustr" where
  "headings_removed text1 = strip (re_sub ppf_re [] text1)"

definition daily_finish :: "tarot_card_input \<Rightarrow> ustr \<Rightarrow> ustr" where
  "daily_finish c text2 =
     (if sublist daily_marker text2 then strip text2
      else strip (strip (daily_header (name c) (orientation_of c) @ [nl] @ text2)))"


text \<open>Example requests.\<close>

definition the_sun :: tarot_card_input where
  "the_sun =
     \<lparr>name = u ''The Sun'', suit = None, number = Some 19, position = u ''Present'',
      is_reversed = True, upright_meaning = u ''Joy and success.'',
      reversed_meaning = u ''Clouded optimism.'', card_keywords = None, imageName = None,
      arcana = Some (u ''major'')\<rparr>"

definition the_fool :: tarot_card_input where
  "the_fool =
     \<lparr>name = u ''The Fool'', suit = None, number = Some 0, position = u ''Past'',
      is_reversed = False, upright_meaning = u ''New beginnings.'',
      reversed_meaning = u ''Recklessness.'', card_keywords = None, imageName = None,
      arcana = Some (u ''major'')\<rparr>"

definition daily_sun :: spread_request where
  "daily_sun = \<lparr>spread_type = u ''daily'', cards = [the_sun]\<rparr>"

definition single_fool :: spread_request where
  "single_fool = \<lparr>spread_type = u ''three_card'', cards = [the_fool]\<rparr>"

definition two_cards :: spread_request where
  "two_cards = \<lparr>spread_type = u ''three_card'', cards = [the_fool, the_sun]\<rparr>"

section \<open>A matcher without positions\<close>

text \<open>
  Only the start anchor reads the position. For a pattern without it the matcher is
  followed by one that threads the rest of the text alone.
\<close>

fun star_greedy0 :: "(nat \<Rightarrow> bool) \<Rightarrow> ustr \<Rightarrow> (ustr \<Rightarrow> ustr option) \<Rightarrow> ustr option" where
  "star_greedy0 p [] k = k []"
| "star_greedy0 p (c # cs) k =
     (if p c then (case star_greedy0 p cs k of Some r \<Rightarrow> Some r | None \<Rightarrow> k (c # cs))
      else k (c # cs))"

fun star_lazy0 :: "(nat \<Rightarrow> bool) \<Rightarrow> ustr \<Rightarrow> (ustr \<Rightarrow> ustr option) \<Rightarrow> ustr option" where
  "star_lazy0 p [] k = k []"
| "star_lazy0 p (c # cs) k =
     (case k (c # cs) of Some r \<Rightarrow> Some r
      | None \<Rightarrow> if p c then star_lazy0 p cs k else None)"

fun rmatch0 :: "regex \<Rightarrow> ustr \<Rightarrow> (ustr \<Rightarrow> ustr option) \<Rightarrow> ustr option" where
  "rmatch0 Eps s k = k s"
| "rmatch0 Bol s k = k s"
| "rmatch0 (Sym p) s k = (case s of [] \<Rightarrow> None | c # cs \<Rightarrow> if p c then k cs else None)"
| "rmatch0 (Seq a b) s k = rmatch0 a s (\<lambda>t. rmatch0 b t k)"
| "rmatch0 (Alt a b) s k = (case rmatch0 a s k of Some r \<Rightarrow> Some r | None \<Rightarrow> rmatch0 b s k)"
| "rmatch0 (Star p) s k = star_greedy0 p s k"
| "rmatch0 (Lazy p) s k = star_lazy0 p s k"

fun no_bol :: "regex \<Rightarrow> bool" where
  "no_bol Bol = False"
| "no_bol (Seq a b) = (no_bol a \<and> no_bol b)"
| "no_bol (Alt a b) = (no_bol a \<and> no_bol b)"
| "no_bol _ = True"


section \<open>The two patterns, read directly\<close>

text \<open>
  What the two patterns match, written as functions on the text: a word of the pattern
  at the start of a text, the first of several words, the opener line, and the heading at
  a position with the search for its closing stars. The lemmas below show that the
  matcher computes exactly these on the program's patterns.
\<close>

fun ci_prefix :: "string \<Rightarrow> ustr \<Rightarrow> ustr option" where
  "ci_prefix [] s = Some s"
| "ci_prefix (p # ps) [] = None"
| "ci_prefix (p # ps) (c # cs) = (if ci_lit (of_char p) c then ci_prefix ps cs else None)"

fun first_prefix :: "string list \<Rightarrow> ustr \<Rightarrow> ustr option" where
  "first_prefix [] s = None"
| "first_prefix (w # ws) s = (case ci_prefix w s of Some t \<Rightarrow> Some t | None \<Rightarrow> first_prefix ws s)"

definition fold_case :: "nat \<Rightarrow> nat" where
  "fold_case c =
     (if 0x41 \<le> c \<and> c \<le> 0x5A then c + 0x20
      else if c = 0x130 \<or> c = 0x131 then 0x69
      else if c = 0x17F then 0x73
      else if c = 0x212A then 0x6B
      else c)"

definition ascii :: "string \<Rightarrow> bool" where
  "ascii w \<longleftrightarrow> (\<forall>c\<in>set w. (of_char c :: nat) < 0x80)"

definition folded :: "string \<Rightarrow> nat list" where
  "folded w = map (\<lambda>c. fold_case (of_char c)) w"

definition exclusive :: "string list \<Rightarrow> bool" where
  "exclusive ws \<longleftrightarrow>
     (\<forall>w\<in>set ws. ascii w \<and> (\<forall>v\<in>set ws. prefix (folded w) (folded v) \<longrightarrow> w = v))"

fun alts :: "string list \<Rightarrow> regex" where
  "alts [] = Eps"
| "alts [w] = iword w"
| "alts (w # v # vs) = Alt (iword w) (alts (v # vs))"

definition opener_words :: "string list" where
  "opener_words = [''Certainly!'', ''Sure!'', ''Of course!'', ''Absolutely!'', ''Okay!'', ''Alright!'']"

definition heading_words :: "string list" where
  "heading_words = [''Past'', ''Present'', ''Future'']"

definition opener_line :: "ustr \<Rightarrow> ustr option" where
  "opener_line s =
     (case first_prefix opener_words (dropWhile isspace s) of
        None \<Rightarrow> None
      | Some t \<Rightarrow>
          (case dropWhile (\<lambda>c. c \<noteq> nl) t of
             [] \<Rightarrow> None
           | _ # r \<Rightarrow> Some (dropWhile (\<lambda>c. c = nl) r)))"

fun find_close :: "ustr \<Rightarrow> ustr option" where
  "find_close [] = None"
| "find_close (c # cs) =
     (case ci_prefix ''**'' (c # cs) of
        Some t \<Rightarrow> Some t
      | None \<Rightarrow> if c \<noteq> nl then find_close cs else None)"

definition heading_at :: "ustr \<Rightarrow> ustr option" where
  "heading_at s =
     (case ci_prefix ''**'' s of
        None \<Rightarrow> None
      | Some s1 \<Rightarrow>
          (case first_prefix heading_words (dropWhile isspace s1) of
             None \<Rightarrow> None
           | Some s2 \<Rightarrow>
               (case dropWhile isspace s2 of
                  [] \<Rightarrow> None
                | c # s3 \<Rightarrow>
                    if c = em_dash then
                      (case find_close s3 of
                         None \<Rightarrow> None
                       | Some s4 \<Rightarrow>
                           Some (dropWhile isspace
                             (case s4 of [] \<Rightarrow> [] | d # s5 \<Rightarrow> if d = 0x3A then s5 else s4)))
                    else None)))"

function sub_scan :: "(ustr \<Rightarrow> ustr option) \<Rightarrow> ustr \<Rightarrow> ustr" where
  "sub_scan m s =
     (case m s of
        Some t \<Rightarrow>
          if length t < length s then sub_scan m t
          else (case s of [] \<Rightarrow> [] | c # cs \<Rightarrow> c # sub_scan m cs)
      | None \<Rightarrow> (case s of [] \<Rightarrow> [] | c # cs \<Rightarrow> c # sub_scan m cs))"
  by pat_completeness auto

termination
  by (relation "measure (\<lambda>(m, s). length s)") auto

declare sub_scan.simps [simp del]

declare re_sub_from.simps [simp del]

definition opener_body :: regex where
  "opener_body =
     seqs [Star isspace, alts opener_words, Star (\<lambda>c. c \<noteq> nl),
           Sym (\<lambda>c. c = nl), Star (\<lambda>c. c = nl)]"

definition heading_body :: "regex list" where
  "heading_body =
     [iword ''**'', Star isspace, alts heading_words, Star isspace, ilit em_dash,
      Lazy (\<lambda>c. c \<noteq> nl), iword ''**'', Alt (ilit (of_char CHR '':'')) Eps, Star isspace]"

text \<open>A card whose meaning ends with a space.\<close>

definition the_fool_padded :: tarot_card_input where
  "the_fool_padded = the_fool\<lparr>upright_meaning := u ''New beginnings. ''\<rparr>"

definition daily_fool_padded :: spread_request where
  "daily_fool_padded = \<lparr>spread_type = u ''daily'', cards = [the_fool_padded]\<rparr>"

text \<open>A request whose first card has a name that goes over two lines.\<close>

definition the_fool_two_lines :: tarot_card_input where
  "the_fool_two_lines =
     the_fool\<lparr>name := u ''The Fool | Orientation: Upright | MeaningRef: x'' @ [nl] @
                       u ''- Position: Future | Card: The World''\<rparr>"

definition two_cards_crafted :: spread_request where
  "two_cards_crafted = \<lparr>spread_type = u ''three_card'', cards = [the_fool_two_lines, the_sun]\<rparr>"

text \<open>Responses of the completion service without a text.\<close>

definition blank_output :: "output_item list option" where
  "blank_output =
     Some [Item (Some (u ''reasoning'')) None,
           Item (Some (u ''message'')) (Some [Part None, Part (Some (u ''  ''))])]"

text \<open>
  The shape of a text with an opener line, as the specification words it: white space,
  one of the six openers in any case, more text on the same line, one or more newlines,
  and the rest, which does not start with a newline.
\<close>

definition ci_equal :: "string \<Rightarrow> ustr \<Rightarrow> bool" where
  "ci_equal w s \<longleftrightarrow> list_all2 (\<lambda>p c. ci_lit (of_char p) c) w s"

definition opener_shape :: "ustr \<Rightarrow> ustr \<Rightarrow> bool" where
  "opener_shape text0 rest \<longleftrightarrow>
     (\<exists>ws w opener more nls.
        text0 = ws @ opener @ more @ nls @ rest \<and> (\<forall>c\<in>set ws. isspace c) \<and>
        w \<in> set opener_words \<and> ci_equal w opener \<and> nl \<notin> set more \<and>
        nls \<noteq> [] \<and> (\<forall>c\<in>set nls. c = nl) \<and> \<not> prefix [nl] rest)"

text \<open>What \<open>normalize_output\<close> does with the text its first substitution leaves.\<close>

definition after_opener :: "spread_request \<Rightarrow> tarot_card_input \<Rightarrow> ustr \<Rightarrow> ustr" where
  "after_opener req c text1 =
     (if classified_daily req then daily_finish c (headings_removed (strip text1))
      else strip (strip text1))"

text \<open>The raw text of the specification's example and what is left of it.\<close>

definition example_rest :: ustr where
  "example_rest = u ''**Daily Card '' @ [em_dash] @ u '' The Fool (Upright):**'' @ [nl] @ u ''Text.''"

definition example_raw :: ustr where
  "example_raw = u ''Certainly! Here you go.'' @ [nl, nl] @ example_rest"

section \<open>Lemmas on the matcher\<close>

lemma star_greedy_snd:
  "(\<And>j t. map_option snd (k j t) = k' t) \<Longrightarrow>
   map_option snd (star_greedy p i s k) = star_greedy0 p s k'"
proof (induction s arbitrary: i)
  case Nil
  then show ?case by simp
next
  case (Cons c cs)
  have ih: "map_option snd (star_greedy p (Suc i) cs k) = star_greedy0 p cs k'"
    using Cons by blast
  have k: "map_option snd (k i (c # cs)) = k' (c # cs)"
    using Cons.prems by blast
  show ?case
  proof (cases "star_greedy p (Suc i) cs k")
    case None
    then have "star_greedy0 p cs k' = None" using ih by simp
    then show ?thesis using None k by simp
  next
    case (Some x)
    then have "star_greedy0 p cs k' = Some (snd x)" using ih by simp
    then show ?thesis using Some k by simp
  qed
qed

lemma star_lazy_snd:
  "(\<And>j t. map_option snd (k j t) = k' t) \<Longrightarrow>
   map_option snd (star_lazy p i s k) = star_lazy0 p s k'"
proof (induction s arbitrary: i)
  case Nil
  then show ?case by simp
next
  case (Cons c cs)
  have ih: "map_option snd (star_lazy p (Suc i) cs k) = star_lazy0 p cs k'"
    using Cons by blast
  have k: "map_option snd (k i (c # cs)) = k' (c # cs)"
    using Cons.prems by blast
  show ?case
  proof (cases "k i (c # cs)")
    case None
    then have "k' (c # cs) = None" using k by simp
    then show ?thesis using None ih by simp
  next
    case (Some x)
    then have "k' (c # cs) = Some (snd x)" using k by simp
    then show ?thesis using Some by simp
  qed
qed

lemma rmatch_snd:
  "no_bol r \<Longrightarrow> (\<And>j t. map_option snd (k j t) = k' t) \<Longrightarrow>
   map_option snd (rmatch r i s k) = rmatch0 r s k'"
proof (induction r arbitrary: i s k k')
  case (Seq a b)
  have b: "\<And>j t. map_option snd (rmatch b j t k) = rmatch0 b t k'"
    using Seq by simp
  have "map_option snd (rmatch a i s (\<lambda>j t. rmatch b j t k)) = rmatch0 a s (\<lambda>t. rmatch0 b t k')"
    using Seq.IH(1) [of "\<lambda>j t. rmatch b j t k" "\<lambda>t. rmatch0 b t k'"] Seq.prems b by simp
  then show ?case by simp
next
  case (Alt a b)
  have a: "map_option snd (rmatch a i s k) = rmatch0 a s k'"
    using Alt by simp
  have b: "map_option snd (rmatch b i s k) = rmatch0 b s k'"
    using Alt by simp
  show ?case
  proof (cases "rmatch a i s k")
    case None
    then have "rmatch0 a s k' = None" using a by simp
    then show ?thesis using None b by simp
  next
    case (Some x)
    then have "rmatch0 a s k' = Some (snd x)" using a by simp
    then show ?thesis using Some by simp
  qed
next
  case (Sym p)
  then show ?case by (cases s) auto
next
  case (Star p)
  then show ?case by (simp add: star_greedy_snd)
next
  case (Lazy p)
  then show ?case by (simp add: star_lazy_snd)
qed simp_all

text \<open>Positions: every success goes through the continuation at the position reached.\<close>

lemma star_greedy_pos:
  "star_greedy p i s k = Some x \<Longrightarrow>
   \<exists>t. k (i + length s - length t) t = Some x \<and> length t \<le> length s"
proof (induction s arbitrary: i)
  case Nil
  then show ?case by auto
next
  case (Cons c cs)
  show ?case
  proof (cases "p c \<and> star_greedy p (Suc i) cs k \<noteq> None")
    case True
    then have "star_greedy p (Suc i) cs k = Some x" using Cons.prems by auto
    then obtain t where "k (Suc i + length cs - length t) t = Some x" "length t \<le> length cs"
      using Cons.IH by blast
    then show ?thesis by (intro exI [of _ t]) auto
  next
    case False
    then have "k i (c # cs) = Some x"
      using Cons.prems by (cases "star_greedy p (Suc i) cs k") (auto split: if_splits)
    then show ?thesis by (intro exI [of _ "c # cs"]) auto
  qed
qed

lemma star_lazy_pos:
  "star_lazy p i s k = Some x \<Longrightarrow>
   \<exists>t. k (i + length s - length t) t = Some x \<and> length t \<le> length s"
proof (induction s arbitrary: i)
  case Nil
  then show ?case by auto
next
  case (Cons c cs)
  show ?case
  proof (cases "k i (c # cs)")
    case (Some y)
    then have "k i (c # cs) = Some x" using Cons.prems by auto
    then show ?thesis by (intro exI [of _ "c # cs"]) auto
  next
    case None
    then have "star_lazy p (Suc i) cs k = Some x" using Cons.prems by (auto split: if_splits)
    then obtain t where "k (Suc i + length cs - length t) t = Some x" "length t \<le> length cs"
      using Cons.IH by blast
    then show ?thesis by (intro exI [of _ t]) auto
  qed
qed

lemma rmatch_pos:
  "rmatch r i s k = Some x \<Longrightarrow>
   \<exists>t. k (i + length s - length t) t = Some x \<and> length t \<le> length s"
proof (induction r arbitrary: i s k)
  case Eps
  then show ?case by (intro exI [of _ s]) auto
next
  case Bol
  then show ?case by (intro exI [of _ s]) (auto split: if_splits)
next
  case (Sym p)
  then obtain c cs where s: "s = c # cs" "k (Suc i) cs = Some x"
    by (cases s) (auto split: if_splits)
  then show ?case by (intro exI [of _ cs]) auto
next
  case (Seq a b)
  from Seq.prems obtain t where t: "rmatch b (i + length s - length t) t k = Some x" "length t \<le> length s"
    using Seq.IH(1) [of i s "\<lambda>j t. rmatch b j t k"] by auto
  from t(1) obtain t' where t': "k (i + length s - length t + length t - length t') t' = Some x"
      "length t' \<le> length t"
    using Seq.IH(2) by blast
  have "i + length s - length t + length t - length t' = i + length s - length t'"
    using t(2) t'(2) by simp
  then show ?case using t t' by (intro exI [of _ t']) auto
next
  case (Alt a b)
  then show ?case by (cases "rmatch a i s k") auto
next
  case (Star p)
  then show ?case using star_greedy_pos by simp
next
  case (Lazy p)
  then show ?case using star_lazy_pos by simp
qed

lemma match_at_pos:
  "match_at r i s = Some (j, t) \<Longrightarrow> j = i + length s - length t \<and> length t \<le> length s"
  using rmatch_pos [of r i s "\<lambda>j t. Some (j, t)" "(j, t)"] by (auto simp: match_at_def)

section \<open>Lemmas on the stages\<close>

lemma foldl_snoc_map: "foldl (\<lambda>acc c. acc @ [f c]) acc0 xs = acc0 @ map f xs"
  by (induction xs arbitrary: acc0) simp_all

lemma build_prompt_cases:
  "cards req = c # cs \<Longrightarrow>
   build_prompt req = Inr (if classified_daily req then daily_prompt c else multi_prompt (c # cs))"
  by (simp add: build_prompt_def classified_daily_def daily_prompt_def multi_prompt_def
      orientation_of_def meaning_of_def foldl_snoc_map Let_def)

lemma normalize_output_cases:
  "cards req = c # cs \<Longrightarrow>
   normalize_output req text0 =
     Inr (if classified_daily req then daily_finish c (headings_removed (opener_stripped text0))
          else strip (opener_stripped text0))"
  by (simp add: normalize_output_def classified_daily_def daily_finish_def headings_removed_def
      opener_stripped_def orientation_of_def Let_def)

subsection \<open>strip\<close>

lemma rstrip_Nil [simp]: "rstrip [] = []"
  by (simp add: rstrip_def)

lemma lstrip_Nil [simp]: "lstrip [] = []"
  by (simp add: lstrip_def)

lemma strip_Nil [simp]: "strip [] = []"
  by (simp add: strip_def)

lemma lstrip_id: "s = [] \<or> \<not> isspace (hd s) \<Longrightarrow> lstrip s = s"
  by (cases s) (auto simp: lstrip_def)

lemma rstrip_id: "s = [] \<or> \<not> isspace (last s) \<Longrightarrow> rstrip s = s"
proof (cases s rule: rev_cases)
  case Nil
  then show ?thesis by simp
next
  case (snoc ys y)
  assume "s = [] \<or> \<not> isspace (last s)"
  then show ?thesis using snoc by (simp add: rstrip_def)
qed

lemma lstrip_hd: "lstrip s \<noteq> [] \<Longrightarrow> \<not> isspace (hd (lstrip s))"
  unfolding lstrip_def using hd_dropWhile by blast

lemma rstrip_last: "rstrip s \<noteq> [] \<Longrightarrow> \<not> isspace (last (rstrip s))"
proof -
  assume a: "rstrip s \<noteq> []"
  then have "dropWhile isspace (rev s) \<noteq> []" by (simp add: rstrip_def)
  then have "\<not> isspace (hd (dropWhile isspace (rev s)))" using hd_dropWhile by blast
  then show ?thesis using a by (simp add: rstrip_def last_rev)
qed

lemma rstrip_append:
  "rstrip (a @ b) = (if \<forall>c\<in>set b. isspace c then rstrip a else a @ rstrip b)"
  by (simp add: rstrip_def dropWhile_append)

lemma rstrip_hd: "rstrip s \<noteq> [] \<Longrightarrow> hd (rstrip s) = hd s"
proof (induction s)
  case Nil
  then show ?case by simp
next
  case (Cons c cs)
  have "rstrip (c # cs) = rstrip ([c] @ cs)" by simp
  also have "\<dots> = (if \<forall>x\<in>set cs. isspace x then rstrip [c] else [c] @ rstrip cs)"
    by (rule rstrip_append)
  finally have e: "rstrip (c # cs) = (if \<forall>x\<in>set cs. isspace x then rstrip [c] else c # rstrip cs)"
    by simp
  show ?case using Cons.prems unfolding e by (auto simp: rstrip_def split: if_splits)
qed

lemma strip_hd_last:
  "strip s \<noteq> [] \<Longrightarrow> \<not> isspace (hd (strip s)) \<and> \<not> isspace (last (strip s))"
proof -
  assume a: "strip s \<noteq> []"
  then have l: "lstrip s \<noteq> []" by (auto simp: strip_def)
  have "hd (strip s) = hd (lstrip s)" using a rstrip_hd by (simp add: strip_def)
  then show ?thesis using a l lstrip_hd rstrip_last by (simp add: strip_def)
qed

lemma strip_id: "s = [] \<or> (\<not> isspace (hd s) \<and> \<not> isspace (last s)) \<Longrightarrow> strip s = s"
  by (auto simp: strip_def lstrip_id rstrip_id)

lemma strip_idem [simp]: "strip (strip s) = strip s"
  using strip_hd_last [of s] strip_id [of "strip s"] by blast

lemma daily_header_marker: "daily_header n ori = daily_marker @ (u '' '' @ [em_dash] @ u '' '' @ n @ u '' ('' @ ori @ u ''):**'')"
  by (simp add: daily_header_def daily_marker_def u_def)

lemma daily_header_ends:
  "daily_header n ori \<noteq> [] \<and> \<not> isspace (hd (daily_header n ori)) \<and>
   \<not> isspace (last (daily_header n ori))"
  by (simp add: daily_header_def u_def isspace_def)

lemma isspace_nl [simp]: "isspace nl"
  by (simp add: isspace_def nl_def)

text \<open>The header in front of an already trimmed text: only a newline left alone is trimmed.\<close>

lemma strip_header:
  assumes "strip t = t"
  shows "strip (daily_header n ori @ [nl] @ t) = daily_header n ori @ (if t = [] then [] else nl # t)"
proof -
  let ?h = "daily_header n ori"
  have h: "?h \<noteq> []" "\<not> isspace (hd ?h)" "\<not> isspace (last ?h)"
    using daily_header_ends by blast+
  have l: "lstrip (?h @ [nl] @ t) = ?h @ [nl] @ t"
    using h by (intro lstrip_id) simp
  show ?thesis
  proof (cases "t = []")
    case True
    have "rstrip (?h @ [nl]) = rstrip ?h"
      by (simp add: rstrip_append)
    also have "\<dots> = ?h" using h by (intro rstrip_id) simp
    finally show ?thesis using True l by (simp add: strip_def)
  next
    case False
    then have "\<not> isspace (last t)" using assms strip_hd_last [of t] by simp
    then have "rstrip (?h @ [nl] @ t) = ?h @ [nl] @ t"
      using False by (intro rstrip_id) simp
    then show ?thesis using False l by (simp add: strip_def)
  qed
qed

lemma strip_header_idem:
  assumes "strip t = t"
  shows "strip (strip (daily_header n ori @ [nl] @ t)) = strip (daily_header n ori @ [nl] @ t)"
  by simp

lemma daily_finish_header:
  assumes "strip t = t" "\<not> sublist daily_marker t"
  shows "daily_finish c t = daily_header (name c) (orientation_of c) @ (if t = [] then [] else nl # t)"
proof -
  have "daily_finish c t = strip (daily_header (name c) (orientation_of c) @ [nl] @ t)"
    using assms(2) by (simp add: daily_finish_def)
  then show ?thesis using strip_header [OF assms(1)] by simp
qed

lemma daily_finish_props:
  assumes "strip t = t"
  shows "sublist daily_marker (daily_finish c t) \<and> strip (daily_finish c t) = daily_finish c t"
proof (cases "sublist daily_marker t")
  case True
  then show ?thesis using assms by (simp add: daily_finish_def)
next
  case False
  have m: "sublist daily_marker (daily_header (name c) (orientation_of c) @ (if t = [] then [] else nl # t))"
    unfolding daily_header_marker by (simp add: sublist_append)
  have e: "daily_finish c t = daily_header (name c) (orientation_of c) @ (if t = [] then [] else nl # t)"
    using daily_finish_header [OF assms False] .
  have "strip (daily_finish c t) = daily_finish c t"
    using False by (simp add: daily_finish_def)
  then show ?thesis using m e by simp
qed

lemma sublist_nonempty: "sublist daily_marker s \<Longrightarrow> s \<noteq> []"
  by (auto simp: daily_marker_def u_def)


section \<open>Lemmas on the two patterns\<close>

lemma ci_lit_fold: "p < 0x80 \<Longrightarrow> ci_lit p c \<longleftrightarrow> fold_case c = fold_case p"
  unfolding ci_lit_def fold_case_def Let_def by (simp; arith)

lemma of_char_ascii: "of_char c < (0x80::nat) \<longleftrightarrow> \<not> digit7 c"
  by (cases c) simp

lemma ci_lit_space: "ci_lit p c \<Longrightarrow> isspace c \<Longrightarrow> c = p"
  unfolding ci_lit_def isspace_def Let_def by (simp split: if_splits; arith)

lemma ci_prefix_fold:
  "ascii w \<Longrightarrow> ci_prefix w s = Some t \<Longrightarrow> \<exists>a. s = a @ t \<and> map fold_case a = folded w"
proof (induction w s rule: ci_prefix.induct)
  case (1 s)
  then show ?case by (simp add: folded_def)
next
  case (2 p ps)
  then show ?case by simp
next
  case (3 p ps c cs)
  from "3.prems" have m: "ci_lit (of_char p) c" and r: "ci_prefix ps cs = Some t"
    by (auto split: if_splits)
  from "3.prems" have a: "ascii ps" "(of_char p :: nat) < 0x80" by (auto simp: ascii_def)
  from "3.IH" [OF m a(1) r] obtain b where b: "cs = b @ t" "map fold_case b = folded ps" by blast
  have "fold_case c = fold_case (of_char p)" using m a(2) ci_lit_fold by blast
  then have "c # cs = (c # b) @ t \<and> map fold_case (c # b) = folded (p # ps)"
    using b by (simp add: folded_def)
  then show ?case by blast
qed

lemma ci_prefix_append: "ci_prefix w s = Some t \<Longrightarrow> ci_prefix w (s @ x) = Some (t @ x)"
  by (induction w s rule: ci_prefix.induct) (auto split: if_splits)

lemma ci_prefix_length: "ci_prefix w s = Some t \<Longrightarrow> length s = length w + length t"
  by (induction w s rule: ci_prefix.induct) (auto split: if_splits)

lemma ci_prefix_unique:
  assumes "exclusive W" "w \<in> set W" "v \<in> set W"
    and "ci_prefix w s = Some t" "ci_prefix v s = Some t'"
  shows "w = v \<and> t = t'"
proof -
  have aw: "ascii w" and av: "ascii v" using assms(1-3) by (auto simp: exclusive_def)
  obtain a where a: "s = a @ t" "map fold_case a = folded w"
    using ci_prefix_fold [OF aw assms(4)] by blast
  obtain b where b: "s = b @ t'" "map fold_case b = folded v"
    using ci_prefix_fold [OF av assms(5)] by blast
  have "prefix (folded w) (map fold_case s)" using a by (metis map_append prefixI)
  moreover have "prefix (folded v) (map fold_case s)" using b by (metis map_append prefixI)
  ultimately have "prefix (folded w) (folded v) \<or> prefix (folded v) (folded w)"
    using prefix_same_cases by blast
  then have "w = v" using assms(1-3) by (auto simp: exclusive_def)
  then show ?thesis using assms(4,5) by simp
qed

lemma first_prefix_Some:
  "first_prefix ws s = Some t \<Longrightarrow> \<exists>w\<in>set ws. ci_prefix w s = Some t"
  by (induction ws) (auto split: option.splits)

lemma first_prefix_None:
  "first_prefix ws s = None \<longleftrightarrow> (\<forall>w\<in>set ws. ci_prefix w s = None)"
  by (induction ws) (auto split: option.splits)

lemma first_prefix_unique:
  assumes "exclusive W" "set ws \<subseteq> set W" "w \<in> set ws" "ci_prefix w s = Some t"
  shows "first_prefix ws s = Some t"
proof (cases "first_prefix ws s")
  case None
  then show ?thesis using assms(3,4) first_prefix_None by fastforce
next
  case (Some t')
  then obtain v where "v \<in> set ws" "ci_prefix v s = Some t'" using first_prefix_Some by blast
  then have "t = t'" using ci_prefix_unique [OF assms(1) _ _ assms(4)] assms(2,3) by blast
  then show ?thesis using Some by simp
qed

lemma first_prefix_append:
  assumes "exclusive ws" "first_prefix ws s = Some t"
  shows "first_prefix ws (s @ x) = Some (t @ x)"
proof -
  obtain w where w: "w \<in> set ws" "ci_prefix w s = Some t"
    using assms(2) first_prefix_Some by blast
  then have "ci_prefix w (s @ x) = Some (t @ x)" using ci_prefix_append by blast
  then show ?thesis using first_prefix_unique [OF assms(1) _ w(1)] by blast
qed

lemma first_prefix_length:
  "first_prefix ws s = Some t \<Longrightarrow> [] \<notin> set ws \<Longrightarrow> length t < length s"
proof -
  assume a: "first_prefix ws s = Some t" "[] \<notin> set ws"
  then obtain w where w: "w \<in> set ws" "ci_prefix w s = Some t" using first_prefix_Some by blast
  then have "w \<noteq> []" using a(2) by auto
  then show ?thesis using ci_prefix_length [OF w(2)] by simp
qed

lemma rmatch0_iword:
  "rmatch0 (iword w) s k = (case ci_prefix w s of None \<Rightarrow> None | Some t \<Rightarrow> k t)"
proof (induction w arbitrary: s)
  case Nil
  then show ?case by (simp add: iword_def)
next
  case (Cons p ps)
  have e: "iword (p # ps) = Seq (ilit (of_char p)) (iword ps)" by (simp add: iword_def)
  show ?case unfolding e using Cons by (cases s) (simp_all add: ilit_def)
qed

lemma rmatch0_alts:
  assumes "exclusive W" "ws \<noteq> []" "set ws \<subseteq> set W"
  shows "rmatch0 (alts ws) s k = (case first_prefix ws s of None \<Rightarrow> None | Some t \<Rightarrow> k t)"
  using assms(2,3)
proof (induction ws rule: alts.induct)
  case 1
  then show ?case by simp
next
  case (2 w)
  then show ?case by (simp add: rmatch0_iword split: option.splits)
next
  case (3 w v vs)
  have ih: "rmatch0 (alts (v # vs)) s k =
      (case first_prefix (v # vs) s of None \<Rightarrow> None | Some t \<Rightarrow> k t)"
    using 3 by simp
  show ?case
  proof (cases "ci_prefix w s")
    case None
    then show ?thesis using ih by (simp add: rmatch0_iword)
  next
    case (Some t)
    show ?thesis
    proof (cases "k t")
      case None
      have "(case first_prefix (v # vs) s of None \<Rightarrow> None | Some t \<Rightarrow> k t) = None"
      proof (cases "first_prefix (v # vs) s")
        case (Some t')
        then obtain x where x: "x \<in> set (v # vs)" "ci_prefix x s = Some t'"
          using first_prefix_Some by blast
        have "t = t'"
          using ci_prefix_unique [OF assms(1) _ _ \<open>ci_prefix w s = Some t\<close> x(2)] x(1) "3.prems"(2)
          by auto
        then show ?thesis using Some None by simp
      qed simp
      then show ?thesis using Some None ih by (simp add: rmatch0_iword)
    next
      case (Some r)
      then show ?thesis using \<open>ci_prefix w s = Some t\<close> by (simp add: rmatch0_iword)
    qed
  qed
qed

lemma exclusive_opener_words: "exclusive opener_words"
  by (simp add: exclusive_def opener_words_def ascii_def folded_def fold_case_def)

lemma exclusive_heading_words: "exclusive heading_words"
  by (simp add: exclusive_def heading_words_def ascii_def folded_def fold_case_def)

lemma star_greedy0_commit:
  "(\<And>c cs. p c \<Longrightarrow> k (c # cs) = None) \<Longrightarrow> star_greedy0 p s k = k (dropWhile p s)"
proof (induction s)
  case Nil
  then show ?case by simp
next
  case (Cons c cs)
  show ?case
  proof (cases "p c")
    case True
    then have "k (c # cs) = None" using Cons.prems by blast
    then show ?thesis using True Cons by (cases "k (dropWhile p cs)") simp_all
  next
    case False
    then show ?thesis by simp
  qed
qed

lemma star_greedy0_total:
  "(\<And>t. k t \<noteq> None) \<Longrightarrow> star_greedy0 p s k = k (dropWhile p s)"
proof (induction s)
  case Nil
  then show ?case by simp
next
  case (Cons c cs)
  obtain r where r: "k (dropWhile p cs) = Some r" using Cons.prems [of "dropWhile p cs"] by auto
  have "star_greedy0 p cs k = Some r" using Cons r by simp
  then show ?case using r by simp
qed

lemma star_lazy0_close:
  "(\<And>t. k t \<noteq> None) \<Longrightarrow>
   star_lazy0 (\<lambda>c. c \<noteq> nl) s (\<lambda>t. case ci_prefix ''**'' t of None \<Rightarrow> None | Some t' \<Rightarrow> k t') =
   (case find_close s of None \<Rightarrow> None | Some t' \<Rightarrow> k t')"
proof (induction s)
  case Nil
  then show ?case by simp
next
  case (Cons c cs)
  show ?case
  proof (cases "ci_prefix ''**'' (c # cs)")
    case None
    then show ?thesis using Cons by simp
  next
    case (Some t)
    obtain r where "k t = Some r" using Cons.prems [of t] by auto
    then show ?thesis using Some by simp
  qed
qed

text \<open>The opener pattern behind its anchor.\<close>

lemma first_prefix_space:
  assumes "isspace c" "\<forall>w\<in>set ws. w \<noteq> [] \<and> \<not> isspace (of_char (hd w))"
  shows "first_prefix ws (c # cs) = None"
proof -
  have "ci_prefix w (c # cs) = None" if "w \<in> set ws" for w
  proof (cases w)
    case Nil
    then show ?thesis using assms(2) that by auto
  next
    case (Cons p ps)
    then have "\<not> isspace (of_char p)" using assms(2) that by auto
    then have "\<not> ci_lit (of_char p) c" using assms(1) ci_lit_space by blast
    then show ?thesis using Cons by simp
  qed
  then show ?thesis by (simp add: first_prefix_None)
qed

lemma opener_alts:
  "Alt (iword ''Certainly!'') (Alt (iword ''Sure!'') (Alt (iword ''Of course!'')
     (Alt (iword ''Absolutely!'') (Alt (iword ''Okay!'') (iword ''Alright!''))))) = alts opener_words"
  by (simp add: opener_words_def)

lemma heading_alts:
  "Alt (iword ''Past'') (Alt (iword ''Present'') (iword ''Future'')) = alts heading_words"
  by (simp add: heading_words_def)

lemma opener_words_nonspace: "\<forall>w\<in>set opener_words. w \<noteq> [] \<and> \<not> isspace (of_char (hd w))"
  by (simp add: opener_words_def isspace_def)

lemma heading_words_nonspace: "\<forall>w\<in>set heading_words. w \<noteq> [] \<and> \<not> isspace (of_char (hd w))"
  by (simp add: heading_words_def isspace_def)

lemma opener_re_body: "opener_re = Seq Bol opener_body"
  by (simp add: opener_re_def opener_body_def seqs_def opener_alts)

lemma rmatch0_opener_body: "rmatch0 opener_body s Some = opener_line s"
proof -
  define f3 :: "ustr \<Rightarrow> ustr option" where
    "f3 = (\<lambda>t. case t of [] \<Rightarrow> None
                 | c # cs \<Rightarrow> if c = nl then Some (dropWhile (\<lambda>c. c = nl) cs) else None)"
  define r3 where "r3 = Seq (Sym (\<lambda>c. c = nl)) (Seq (Star (\<lambda>c. c = nl)) Eps)"
  define r2 where "r2 = Seq (Star (\<lambda>c. c \<noteq> nl)) r3"
  define r1 where "r1 = Seq (alts opener_words) r2"
  have body: "opener_body = Seq (Star isspace) r1"
    by (simp add: opener_body_def seqs_def r1_def r2_def r3_def)
  have m3: "rmatch0 r3 t Some = f3 t" for t
  proof (cases t)
    case Nil
    then show ?thesis by (simp add: r3_def f3_def)
  next
    case (Cons c cs)
    have "star_greedy0 (\<lambda>c. c = nl) cs Some = Some (dropWhile (\<lambda>c. c = nl) cs)"
      by (rule star_greedy0_total) simp
    then show ?thesis using Cons by (simp add: r3_def f3_def)
  qed
  have m2: "rmatch0 r2 t Some = f3 (dropWhile (\<lambda>c. c \<noteq> nl) t)" for t
  proof -
    have "rmatch0 r2 t Some = star_greedy0 (\<lambda>c. c \<noteq> nl) t f3"
      using m3 by (simp add: r2_def)
    also have "\<dots> = f3 (dropWhile (\<lambda>c. c \<noteq> nl) t)"
      by (rule star_greedy0_commit) (simp add: f3_def)
    finally show ?thesis .
  qed
  have m1: "rmatch0 r1 t Some =
      (case first_prefix opener_words t of None \<Rightarrow> None
       | Some t' \<Rightarrow> f3 (dropWhile (\<lambda>c. c \<noteq> nl) t'))" for t
  proof -
    have "rmatch0 r1 t Some = rmatch0 (alts opener_words) t (\<lambda>t'. f3 (dropWhile (\<lambda>c. c \<noteq> nl) t'))"
      using m2 by (simp add: r1_def)
    also have "\<dots> = (case first_prefix opener_words t of None \<Rightarrow> None
       | Some t' \<Rightarrow> f3 (dropWhile (\<lambda>c. c \<noteq> nl) t'))"
      by (rule rmatch0_alts [OF exclusive_opener_words]) (simp_all add: opener_words_def)
    finally show ?thesis .
  qed
  have f3': "f3 (dropWhile (\<lambda>c. c \<noteq> nl) t) =
      (case dropWhile (\<lambda>c. c \<noteq> nl) t of [] \<Rightarrow> None
       | _ # r \<Rightarrow> Some (dropWhile (\<lambda>c. c = nl) r))" for t
  proof (cases "dropWhile (\<lambda>c. c \<noteq> nl) t")
    case Nil
    show ?thesis unfolding Nil f3_def by simp
  next
    case (Cons c r)
    then have c: "c = nl" using hd_dropWhile [of "\<lambda>c. c \<noteq> nl" t] by auto
    show ?thesis unfolding Cons f3_def using c by simp
  qed
  have "rmatch0 opener_body s Some = star_greedy0 isspace s (\<lambda>t. rmatch0 r1 t Some)"
    by (simp add: body)
  also have "\<dots> = rmatch0 r1 (dropWhile isspace s) Some"
    by (rule star_greedy0_commit) (simp add: m1 first_prefix_space opener_words_nonspace)
  also have "\<dots> = opener_line s"
    by (simp add: m1 opener_line_def f3' split: option.splits)
  finally show ?thesis .
qed

lemma no_bol_iword: "no_bol (iword w)"
  by (induction w) (simp_all add: iword_def ilit_def)

lemma no_bol_alts: "no_bol (alts ws)"
  by (induction ws rule: alts.induct) (simp_all add: no_bol_iword)

lemma no_bol_opener_body: "no_bol opener_body"
  by (simp add: opener_body_def seqs_def no_bol_alts)

lemma match_at_opener:
  "match_at opener_re i s =
     (if i = 0 then map_option (\<lambda>t. (length s - length t, t)) (opener_line s) else None)"
proof (cases "i = 0")
  case False
  then show ?thesis by (simp add: match_at_def opener_re_body)
next
  case True
  have m: "match_at opener_re 0 s = match_at opener_body 0 s"
    by (simp add: match_at_def opener_re_body)
  have p: "map_option snd (match_at opener_body 0 s) = opener_line s"
    unfolding match_at_def
    using rmatch_snd [OF no_bol_opener_body, of "\<lambda>j t. Some (j, t)" Some 0 s]
    by (simp add: rmatch0_opener_body)
  show ?thesis
  proof (cases "match_at opener_body 0 s")
    case None
    then show ?thesis using p m True by simp
  next
    case (Some x)
    obtain j t where x: "x = (j, t)" by (cases x)
    then have j: "j = length s - length t" using match_at_pos [of opener_body 0 s j t] Some by simp
    have "opener_line s = Some t" using p Some x by simp
    then show ?thesis using m True Some x j by simp
  qed
qed

lemma opener_line_shorter: "opener_line s = Some t \<Longrightarrow> length t < length s"
proof -
  assume a: "opener_line s = Some t"
  then obtain t1 where t1: "first_prefix opener_words (dropWhile isspace s) = Some t1"
    by (auto simp: opener_line_def split: option.splits)
  then obtain c r where r: "dropWhile (\<lambda>c. c \<noteq> nl) t1 = c # r" "t = dropWhile (\<lambda>c. c = nl) r"
    using a by (auto simp: opener_line_def split: list.splits)
  have "length t \<le> length r" using r(2) length_dropWhile_le by blast
  moreover have "length (c # r) \<le> length t1" using r(1) length_dropWhile_le by metis
  moreover have "length t1 \<le> length (dropWhile isspace s)"
    using t1 first_prefix_Some ci_prefix_length by fastforce
  moreover have "length (dropWhile isspace s) \<le> length s" using length_dropWhile_le by blast
  ultimately show ?thesis by simp
qed

lemma re_sub_from_opener_later: "0 < i \<Longrightarrow> re_sub_from opener_re [] i s = s"
proof (induction s arbitrary: i)
  case Nil
  then show ?case by (subst re_sub_from.simps) (simp add: match_at_opener)
next
  case (Cons c cs)
  have "re_sub_from opener_re [] (Suc i) cs = cs" using Cons.IH by simp
  then show ?case using Cons.prems by (subst re_sub_from.simps) (simp add: match_at_opener)
qed

text \<open>The first substitution removes the opener line, once, or nothing.\<close>

lemma re_sub_opener:
  "re_sub opener_re [] s = (case opener_line s of None \<Rightarrow> s | Some t \<Rightarrow> t)"
proof (cases "opener_line s")
  case None
  show ?thesis
  proof (cases s)
    case Nil
    then show ?thesis using None
      unfolding re_sub_def by (subst re_sub_from.simps) (simp add: match_at_opener)
  next
    case (Cons c cs)
    have "re_sub_from opener_re [] (Suc 0) cs = cs" by (rule re_sub_from_opener_later) simp
    then show ?thesis using None Cons
      unfolding re_sub_def by (subst re_sub_from.simps) (simp add: match_at_opener)
  qed
next
  case (Some t)
  have l: "length t < length s" using Some opener_line_shorter by blast
  then have "re_sub_from opener_re [] (length s - length t) t = t"
    by (intro re_sub_from_opener_later) simp
  then show ?thesis using Some l
    unfolding re_sub_def by (subst re_sub_from.simps) (simp add: match_at_opener)
qed

lemma ppf_re_body: "ppf_re = seqs heading_body"
  by (simp add: ppf_re_def heading_body_def heading_alts)

lemma no_bol_ppf_re: "no_bol ppf_re"
  by (simp add: ppf_re_body heading_body_def seqs_def no_bol_alts no_bol_iword ilit_def)

lemma ci_lit_em_dash [simp]: "ci_lit em_dash c \<longleftrightarrow> c = em_dash"
  by (simp add: ci_lit_def em_dash_def)

lemma ci_lit_colon [simp]: "ci_lit 0x3A c \<longleftrightarrow> c = 0x3A"
  by (simp add: ci_lit_def)

lemma not_isspace_em_dash [simp]: "\<not> isspace em_dash"
  by (simp add: isspace_def em_dash_def)

lemma rmatch0_ppf_re: "rmatch0 ppf_re s Some = heading_at s"
proof -
  define f8 :: "ustr \<Rightarrow> ustr option" where
    "f8 = (\<lambda>t. Some (dropWhile isspace (case t of [] \<Rightarrow> [] | d # s5 \<Rightarrow> if d = 0x3A then s5 else t)))"
  define r9 where "r9 = Seq (Star isspace) Eps"
  define r8 where "r8 = Seq (Alt (ilit (of_char CHR '':'')) Eps) r9"
  define r7 where "r7 = Seq (iword ''**'') r8"
  define r6 where "r6 = Seq (Lazy (\<lambda>c. c \<noteq> nl)) r7"
  define r5 where "r5 = Seq (ilit em_dash) r6"
  define r4 where "r4 = Seq (Star isspace) r5"
  define r3 where "r3 = Seq (alts heading_words) r4"
  define r2 where "r2 = Seq (Star isspace) r3"
  have body: "ppf_re = Seq (iword ''**'') r2"
    by (simp add: ppf_re_body heading_body_def seqs_def r2_def r3_def r4_def r5_def r6_def
        r7_def r8_def r9_def)
  have m9: "rmatch0 r9 t Some = Some (dropWhile isspace t)" for t
  proof -
    have "star_greedy0 isspace t Some = Some (dropWhile isspace t)"
      by (rule star_greedy0_total) simp
    then show ?thesis by (simp add: r9_def)
  qed
  have m8: "rmatch0 r8 t Some = f8 t" for t
    by (cases t) (simp_all add: r8_def f8_def m9 ilit_def)
  have m7: "rmatch0 r7 t Some = (case ci_prefix ''**'' t of None \<Rightarrow> None | Some t' \<Rightarrow> f8 t')" for t
    by (simp add: r7_def rmatch0_iword m8)
  have m6: "rmatch0 r6 t Some = (case find_close t of None \<Rightarrow> None | Some t' \<Rightarrow> f8 t')" for t
  proof -
    have e: "(\<lambda>t. rmatch0 r7 t Some) = (\<lambda>t. case ci_prefix ''**'' t of None \<Rightarrow> None | Some t' \<Rightarrow> f8 t')"
      by (rule ext) (rule m7)
    have "rmatch0 r6 t Some = star_lazy0 (\<lambda>c. c \<noteq> nl) t (\<lambda>t. rmatch0 r7 t Some)"
      by (simp add: r6_def)
    also have "\<dots> = (case find_close t of None \<Rightarrow> None | Some t' \<Rightarrow> f8 t')"
      unfolding e by (rule star_lazy0_close) (simp add: f8_def)
    finally show ?thesis .
  qed
  have m5: "rmatch0 r5 t Some =
      (case t of [] \<Rightarrow> None | c # s3 \<Rightarrow> if c = em_dash then rmatch0 r6 s3 Some else None)" for t
    by (cases t) (simp_all add: r5_def ilit_def)
  have m4: "rmatch0 r4 t Some = rmatch0 r5 (dropWhile isspace t) Some" for t
  proof -
    have "rmatch0 r4 t Some = star_greedy0 isspace t (\<lambda>t. rmatch0 r5 t Some)"
      by (simp add: r4_def)
    also have "\<dots> = rmatch0 r5 (dropWhile isspace t) Some"
      by (rule star_greedy0_commit) (auto simp: m5)
    finally show ?thesis .
  qed
  have m3: "rmatch0 r3 t Some =
      (case first_prefix heading_words t of None \<Rightarrow> None | Some t' \<Rightarrow> rmatch0 r4 t' Some)" for t
  proof -
    have "rmatch0 r3 t Some = rmatch0 (alts heading_words) t (\<lambda>t. rmatch0 r4 t Some)"
      by (simp add: r3_def)
    also have "\<dots> = (case first_prefix heading_words t of None \<Rightarrow> None | Some t' \<Rightarrow> rmatch0 r4 t' Some)"
      by (rule rmatch0_alts [OF exclusive_heading_words]) (simp_all add: heading_words_def)
    finally show ?thesis .
  qed
  have m2: "rmatch0 r2 t Some = rmatch0 r3 (dropWhile isspace t) Some" for t
  proof -
    have "rmatch0 r2 t Some = star_greedy0 isspace t (\<lambda>t. rmatch0 r3 t Some)"
      by (simp add: r2_def)
    also have "\<dots> = rmatch0 r3 (dropWhile isspace t) Some"
      by (rule star_greedy0_commit) (simp add: m3 first_prefix_space heading_words_nonspace)
    finally show ?thesis .
  qed
  have "rmatch0 ppf_re s Some = (case ci_prefix ''**'' s of None \<Rightarrow> None | Some t \<Rightarrow> rmatch0 r2 t Some)"
    by (simp add: body rmatch0_iword)
  also have "\<dots> = heading_at s"
    by (simp add: heading_at_def m2 m3 m4 m5 m6 f8_def
        cong: option.case_cong list.case_cong if_cong)
  finally show ?thesis .
qed

lemma match_at_ppf: "map_option snd (match_at ppf_re i s) = heading_at s"
  unfolding match_at_def
  using rmatch_snd [OF no_bol_ppf_re, of "\<lambda>j t. Some (j, t)" Some i s]
  by (simp add: rmatch0_ppf_re)

lemma re_sub_from_scan:
  assumes "\<And>i s. map_option snd (match_at r i s) = m s"
  shows "re_sub_from r [] i s = sub_scan m s"
proof (induction s arbitrary: i rule: length_induct)
  case (1 s)
  have ih: "length t < length s \<Longrightarrow> re_sub_from r [] j t = sub_scan m t" for t j
    using 1 by blast
  show ?case
  proof (cases "match_at r i s")
    case None
    then have n: "m s = None" using assms [of i s] by simp
    show ?thesis
    proof (cases s)
      case Nil
      then show ?thesis using None n
        by (subst re_sub_from.simps, subst sub_scan.simps) simp
    next
      case (Cons c cs)
      then have "re_sub_from r [] (Suc i) cs = sub_scan m cs" using ih by simp
      then show ?thesis using None n Cons
        by (subst re_sub_from.simps, subst sub_scan.simps) simp
    qed
  next
    case (Some x)
    obtain j t where x: "x = (j, t)" by (cases x)
    then have n: "m s = Some t" using assms [of i s] Some by simp
    show ?thesis
    proof (cases "length t < length s")
      case True
      then have "re_sub_from r [] j t = sub_scan m t" using ih by simp
      then show ?thesis using Some x n True
        by (subst re_sub_from.simps, subst sub_scan.simps) simp
    next
      case False
      show ?thesis
      proof (cases s)
        case Nil
        then show ?thesis using Some x n False
          by (subst re_sub_from.simps, subst sub_scan.simps) simp
      next
        case (Cons c cs)
        then have "re_sub_from r [] (Suc i) cs = sub_scan m cs" using ih by simp
        then show ?thesis using Some x n False Cons
          by (subst re_sub_from.simps, subst sub_scan.simps) simp
      qed
    qed
  qed
qed

lemma re_sub_ppf: "re_sub ppf_re [] s = sub_scan heading_at s"
  unfolding re_sub_def by (rule re_sub_from_scan) (rule match_at_ppf)

subsection \<open>The daily prompt\<close>

lemma daily_body_ends:
  "daily_body n ori \<noteq> [] \<and> \<not> isspace (hd (daily_body n ori)) \<and> \<not> isspace (last (daily_body n ori))"
  by (simp add: daily_body_def u_def isspace_def)

lemma daily_body_literal: "sublist (u ''SINGLE CARD daily draw'') (daily_body n ori)"
  by (simp add: daily_body_def u_def sublist_code)

lemma daily_body_start: "prefix (u ''You are a tarot reader. W'') (daily_body n ori)"
  by (simp add: daily_body_def u_def)

lemma multi_prompt_start: "\<not> prefix (u ''You are a tarot reader. W'') (multi_prompt cs)"
  by (simp add: multi_prompt_def multi_lines_def u_def)

lemma rstrip_meaning_line:
  "rstrip ([nl] @ m @ [nl]) = (if \<forall>c\<in>set m. isspace c then [] else nl # rstrip m)"
proof -
  have a: "rstrip (m @ [nl]) = rstrip m"
    by (simp add: rstrip_append)
  have "rstrip ([nl] @ (m @ [nl])) =
      (if \<forall>c\<in>set (m @ [nl]). isspace c then rstrip [nl] else [nl] @ rstrip (m @ [nl]))"
    by (rule rstrip_append)
  then show ?thesis using a by (simp add: rstrip_def)
qed

text \<open>
  The trimmed template: the fixed text, then the meaning without its trailing white space
  on a line of its own, or nothing when the meaning is blank.
\<close>

lemma strip_daily_template:
  "strip (daily_template n ori m) =
     daily_body n ori @ (if \<forall>c\<in>set m. isspace c then [] else nl # rstrip m)"
proof -
  let ?b = "daily_body n ori"
  have b: "?b \<noteq> []" "\<not> isspace (hd ?b)" "\<not> isspace (last ?b)"
    using daily_body_ends by blast+
  have "lstrip (daily_template n ori m) = lstrip (?b @ [nl] @ m @ [nl])"
    by (simp add: daily_template_def lstrip_def)
  also have "\<dots> = ?b @ [nl] @ m @ [nl]"
    using b by (intro lstrip_id) simp
  finally have l: "lstrip (daily_template n ori m) = ?b @ ([nl] @ m @ [nl])" by simp
  have "rstrip (?b @ ([nl] @ m @ [nl])) =
      (if \<forall>c\<in>set ([nl] @ m @ [nl]). isspace c then rstrip ?b else ?b @ rstrip ([nl] @ m @ [nl]))"
    by (rule rstrip_append)
  moreover have "rstrip ?b = ?b" using b by (intro rstrip_id) simp
  ultimately show ?thesis
    unfolding strip_def l using rstrip_meaning_line [of m] by simp
qed

lemma daily_prompt_eq:
  "daily_prompt c =
     daily_body (name c) (orientation_of c) @
     (if \<forall>x\<in>set (meaning_of c). isspace x then [] else nl # rstrip (meaning_of c))"
  by (simp add: daily_prompt_def strip_daily_template)

lemma daily_prompt_neq_multi: "daily_prompt c \<noteq> multi_prompt cs"
proof
  assume e: "daily_prompt c = multi_prompt cs"
  have "prefix (u ''You are a tarot reader. W'') (daily_prompt c)"
    unfolding daily_prompt_eq using daily_body_start prefix_prefix by blast
  then show False using e multi_prompt_start by simp
qed

lemma build_prompt_nonempty:
  "cards req \<noteq> [] \<Longrightarrow> \<exists>prompt. build_prompt req = Inr prompt"
  using build_prompt_cases by (cases "cards req") auto

lemma rstrip_all_space: "\<forall>c\<in>set m. isspace c \<Longrightarrow> rstrip m = []"
  by (simp add: rstrip_def)

subsection \<open>The multi-card prompt\<close>

lemma build_prompt_multi:
  "\<not> classified_daily req \<Longrightarrow> build_prompt req = Inr (multi_prompt (cards req))"
  by (simp add: build_prompt_def classified_daily_def multi_prompt_def foldl_snoc_map)

lemma split_lines_ne [simp]: "split_lines s \<noteq> []"
  by (induction s) (auto split: list.splits)

lemma split_lines_no_nl: "nl \<notin> set x \<Longrightarrow> split_lines x = [x]"
  by (induction x) auto

lemma split_lines_append_nl: "nl \<notin> set x \<Longrightarrow> split_lines (x @ nl # r) = x # split_lines r"
  by (induction x) auto

lemma split_lines_join:
  "ls \<noteq> [] \<Longrightarrow> \<forall>l\<in>set ls. nl \<notin> set l \<Longrightarrow> split_lines (join [nl] ls) = ls"
proof (induction "[nl]" ls rule: join.induct)
  case 1
  then show ?case by simp
next
  case (2 x)
  then show ?case by (simp add: split_lines_no_nl)
next
  case (3 x y ys)
  then have "split_lines (join [nl] (y # ys)) = y # ys" by simp
  then show ?case using 3 by (simp add: split_lines_append_nl)
qed

lemma multi_lines_no_nl: "\<forall>l\<in>set multi_lines. nl \<notin> set l"
  by (simp add: multi_lines_def u_def nl_def em_dash_def)

lemma multi_lines_no_card_line: "filter (prefix (u ''- Position: '')) multi_lines = []"
  by (simp add: multi_lines_def u_def)

lemma card_line_no_nl:
  "nl \<notin> set (position c) \<Longrightarrow> nl \<notin> set (name c) \<Longrightarrow> nl \<notin> set (meaning_of c) \<Longrightarrow>
   nl \<notin> set (card_line c)"
  by (simp add: card_line_def meaning_of_def u_def nl_def)

lemma card_line_prefix: "prefix (u ''- Position: '') (card_line c)"
  by (simp add: card_line_def Let_def)

lemma card_line_eq:
  "card_line c =
     u ''- Position: '' @ position c @ u '' | Card: '' @ name c @ u '' | Orientation: '' @
     orientation_of c @ u '' | MeaningRef: '' @ meaning_of c"
  by (simp add: card_line_def orientation_of_def meaning_of_def)

lemma join_Cons: "rest \<noteq> [] \<Longrightarrow> join sep (x # rest) = x @ sep @ join sep rest"
  by (cases rest) simp_all

lemma join_split: "join sep (xs @ (a @ sep @ b) # ys) = join sep (xs @ a # b # ys)"
proof (induction xs)
  case Nil
  then show ?case by (cases ys) simp_all
next
  case (Cons x xs)
  then show ?case by (simp add: join_Cons)
qed

subsection \<open>The fallback text\<close>

lemmas eval_text =
  u_def isspace_def ci_lit_def nl_def em_dash_def opener_line_def opener_words_def
  heading_at_def heading_words_def strip_def lstrip_def rstrip_def

lemma fallback_opener_stripped: "opener_stripped fallback_text = fallback_text"
  by (simp add: opener_stripped_def fallback_text_def re_sub_opener eval_text)

lemma fallback_headings_removed: "headings_removed fallback_text = fallback_text"
  by (simp add: headings_removed_def fallback_text_def re_sub_ppf sub_scan.simps eval_text)

lemma fallback_no_marker: "\<not> sublist daily_marker fallback_text"
  by (simp add: daily_marker_def fallback_text_def u_def sublist_code(3))

lemma fallback_strip: "strip fallback_text = fallback_text"
  by (simp add: fallback_text_def eval_text)

lemma fallback_nonempty: "fallback_text \<noteq> []"
  by (simp add: fallback_text_def u_def)

lemma normalize_output_fallback:
  assumes "cards req = c # cs"
  shows "normalize_output req fallback_text =
           Inr (if classified_daily req
                then daily_header (name c) (orientation_of c) @ nl # fallback_text
                else fallback_text)"
proof -
  have s: "strip fallback_text = fallback_text" by (rule fallback_strip)
  have "daily_finish c fallback_text =
      daily_header (name c) (orientation_of c) @ nl # fallback_text"
    using daily_finish_header [OF s fallback_no_marker, of c] fallback_nonempty by simp
  then show ?thesis
    using normalize_output_cases [OF assms, of fallback_text]
    by (simp add: fallback_opener_stripped fallback_headings_removed fallback_strip)
qed

lemma interpret_spread_fallback:
  assumes "cards req = c # cs"
    and "build_prompt req = Inr prompt"
    and "client (completion_request prompt) = Returns output"
    and "strip (concat (collect_text_parts output)) = []"
  shows "interpret_spread client req =
           (Inr \<lparr>response_interpretation =
                   (if classified_daily req
                    then daily_header (name c) (orientation_of c) @ nl # fallback_text
                    else fallback_text)\<rparr>,
            [completion_request prompt])"
  using assms normalize_output_fallback [OF assms(1)]
  by (simp add: interpret_spread_def)

lemma blank_output_text: "strip (concat (collect_text_parts blank_output)) = []"
  by (simp add: blank_output_def collect_text_parts_def part_texts_def eval_text)

lemma empty_output_text: "strip (concat (collect_text_parts (Some []))) = []"
  by (simp add: collect_text_parts_def)

lemma build_prompt_daily_sun: "build_prompt daily_sun = Inr (daily_prompt the_sun)"
proof -
  have c: "cards daily_sun = the_sun # []" by (simp add: daily_sun_def)
  show ?thesis using build_prompt_cases [OF c] by (simp add: classified_daily_def daily_sun_def)
qed

lemma build_prompt_two_cards: "build_prompt two_cards = Inr (multi_prompt [the_fool, the_sun])"
proof -
  have c: "cards two_cards = the_fool # [the_sun]" by (simp add: two_cards_def)
  show ?thesis using build_prompt_cases [OF c]
    by (simp add: classified_daily_def two_cards_def u_def)
qed

subsection \<open>The opener line and its shape\<close>

lemma ci_prefix_iff: "ci_prefix w s = Some t \<longleftrightarrow> (\<exists>op. s = op @ t \<and> ci_equal w op)"
proof (induction w s rule: ci_prefix.induct)
  case (1 s)
  then show ?case by (simp add: ci_equal_def)
next
  case (2 p ps)
  then show ?case by (simp add: ci_equal_def list_all2_Cons1)
next
  case (3 p ps c cs)
  show ?case
  proof (cases "ci_lit (of_char p) c")
    case True
    have "(\<exists>op. c # cs = op @ t \<and> ci_equal (p # ps) op) \<longleftrightarrow> (\<exists>op'. cs = op' @ t \<and> ci_equal ps op')"
      using True by (auto simp: ci_equal_def list_all2_Cons1)
    then show ?thesis using 3 True by simp
  next
    case False
    then show ?thesis by (auto simp: ci_equal_def list_all2_Cons1)
  qed
qed

lemma opener_word_head:
  assumes "w \<in> set opener_words" "ci_equal w op"
  shows "op \<noteq> [] \<and> \<not> isspace (hd op)"
proof -
  have "w \<noteq> [] \<and> \<not> isspace (of_char (hd w))"
    using assms(1) opener_words_nonspace by blast
  then obtain p ps where w: "w = p # ps" "\<not> isspace (of_char p)"
    by (cases w) auto
  then obtain c cs where op: "op = c # cs" "ci_lit (of_char p) c"
    using assms(2) by (auto simp: ci_equal_def list_all2_Cons1)
  then have "\<not> isspace c" using w(2) ci_lit_space by blast
  then show ?thesis using op by simp
qed

lemma opener_line_shape: "opener_line s = Some t \<longleftrightarrow> opener_shape s t"
proof
  assume a: "opener_line s = Some t"
  obtain t1 where t1: "first_prefix opener_words (dropWhile isspace s) = Some t1"
    using a by (auto simp: opener_line_def split: option.splits)
  obtain c r where r: "dropWhile (\<lambda>c. c \<noteq> nl) t1 = c # r" "t = dropWhile (\<lambda>c. c = nl) r"
    using a t1 by (auto simp: opener_line_def split: list.splits)
  have c: "c = nl" using r(1) hd_dropWhile [of "\<lambda>c. c \<noteq> nl" t1] by auto
  obtain w where w: "w \<in> set opener_words" "ci_prefix w (dropWhile isspace s) = Some t1"
    using t1 first_prefix_Some by blast
  obtain op where op: "dropWhile isspace s = op @ t1" "ci_equal w op"
    using w(2) ci_prefix_iff by blast
  define ws where "ws = takeWhile isspace s"
  define more where "more = takeWhile (\<lambda>c. c \<noteq> nl) t1"
  define nls where "nls = nl # takeWhile (\<lambda>c. c = nl) r"
  have "ws @ op @ t1 = takeWhile isspace s @ dropWhile isspace s"
    unfolding ws_def op(1) by simp
  then have s: "s = ws @ op @ t1" by simp
  have "more @ nl # r = takeWhile (\<lambda>c. c \<noteq> nl) t1 @ dropWhile (\<lambda>c. c \<noteq> nl) t1"
    unfolding more_def r(1) c by simp
  then have t1': "t1 = more @ nl # r" by simp
  have "takeWhile (\<lambda>c. c = nl) r @ t = takeWhile (\<lambda>c. c = nl) r @ dropWhile (\<lambda>c. c = nl) r"
    unfolding r(2) by simp
  then have r': "r = takeWhile (\<lambda>c. c = nl) r @ t" by simp
  have "more @ nls @ t = more @ nl # (takeWhile (\<lambda>c. c = nl) r @ t)"
    unfolding nls_def by simp
  also have "\<dots> = t1" using t1' r' by simp
  finally have f1: "s = ws @ op @ more @ nls @ t" using s by simp
  have f2: "\<forall>c\<in>set ws. isspace c" unfolding ws_def using set_takeWhileD by fastforce
  have f3: "nl \<notin> set more" unfolding more_def using set_takeWhileD by fastforce
  have f4: "nls \<noteq> []" unfolding nls_def by simp
  have f5: "\<forall>c\<in>set nls. c = nl" unfolding nls_def using set_takeWhileD by fastforce
  have f6: "\<not> prefix [nl] t"
  proof
    assume "prefix [nl] t"
    then obtain t' where "t = nl # t'" by (cases t) auto
    then have "dropWhile (\<lambda>c. c = nl) r = nl # t'" using r(2) by simp
    then show False using hd_dropWhile [of "\<lambda>c. c = nl" r] by simp
  qed
  have "s = ws @ op @ more @ nls @ t \<and> (\<forall>c\<in>set ws. isspace c) \<and>
      w \<in> set opener_words \<and> ci_equal w op \<and> nl \<notin> set more \<and>
      nls \<noteq> [] \<and> (\<forall>c\<in>set nls. c = nl) \<and> \<not> prefix [nl] t"
    using f1 f2 w(1) op(2) f3 f4 f5 f6 by (intro conjI)
  then show "opener_shape s t"
    unfolding opener_shape_def by (intro exI)
next
  assume "opener_shape s t"
  then obtain ws w op more nls where
    s: "s = ws @ op @ more @ nls @ t" and ws: "\<forall>c\<in>set ws. isspace c" and
    w: "w \<in> set opener_words" "ci_equal w op" and more: "nl \<notin> set more" and
    nls: "nls \<noteq> []" "\<forall>c\<in>set nls. c = nl" and t: "\<not> prefix [nl] t"
    unfolding opener_shape_def by blast
  have h: "op \<noteq> []" "\<not> isspace (hd op)" using opener_word_head [OF w] by simp_all
  have "dropWhile isspace s = dropWhile isspace (op @ more @ nls @ t)"
    unfolding s using ws by (intro dropWhile_append2) simp
  also have "\<dots> = op @ more @ nls @ t" using h by (cases op) simp_all
  finally have d: "dropWhile isspace s = op @ (more @ nls @ t)" by simp
  have "ci_prefix w (op @ (more @ nls @ t)) = Some (more @ nls @ t)"
    using w(2) ci_prefix_iff by blast
  then have f: "first_prefix opener_words (dropWhile isspace s) = Some (more @ nls @ t)"
    unfolding d using first_prefix_unique [OF exclusive_opener_words _ w(1)] by blast
  obtain nls' where n: "nls = nl # nls'" "\<forall>c\<in>set nls'. c = nl"
    using nls by (cases nls) auto
  have "dropWhile (\<lambda>c. c \<noteq> nl) (more @ nls @ t) = dropWhile (\<lambda>c. c \<noteq> nl) (nls @ t)"
    using more by (intro dropWhile_append2) auto
  then have m: "dropWhile (\<lambda>c. c \<noteq> nl) (more @ nls @ t) = nl # (nls' @ t)"
    unfolding n(1) by simp
  have "dropWhile (\<lambda>c. c = nl) (nls' @ t) = dropWhile (\<lambda>c. c = nl) t"
    using n(2) by (intro dropWhile_append2) auto
  also have "\<dots> = t" using t by (cases t) auto
  finally have e: "dropWhile (\<lambda>c. c = nl) (nls' @ t) = t" .
  show "opener_line s = Some t"
    unfolding opener_line_def f using m e by (simp add: n(1))
qed

lemma example_opener_line: "opener_line example_raw = Some example_rest"
  by (simp add: example_raw_def example_rest_def eval_text)

lemma example_rest_finish:
  "headings_removed example_rest = example_rest \<and> sublist daily_marker example_rest \<and>
   strip example_rest = example_rest"
  by (simp add: headings_removed_def example_rest_def re_sub_ppf sub_scan.simps eval_text
      daily_marker_def sublist_code(3))

lemma normalize_output_after_opener:
  "cards req = c # cs \<Longrightarrow>
   normalize_output req text0 = Inr (after_opener req c (re_sub opener_re [] text0))"
  using normalize_output_cases [of req c cs text0]
  by (simp add: after_opener_def opener_stripped_def)

section \<open>Claims\<close>

subsection \<open>C1: one classification for both functions\<close>

text \<open>
  C1. For a request with at least one card, \<open>build_prompt\<close> and
  \<open>normalize_output\<close> take their daily branch exactly when \<open>spread_type\<close> is
  \<open>"daily"\<close> or the request has exactly one card, whatever its \<open>spread_type\<close>:
  \<open>build_prompt\<close> then returns the daily prompt of the first card and otherwise the
  multi-card prompt, which is never a daily prompt, and \<open>normalize_output\<close> then runs
  its daily steps on the text without its opener and otherwise only trims that text.
\<close>

theorem daily_classification_shared:
  assumes "cards req = c # cs"
  shows "build_prompt req =
           Inr (if spread_type req = u ''daily'' \<or> length (cards req) = 1
                then daily_prompt c else multi_prompt (cards req)) \<and>
         (build_prompt req = Inr (daily_prompt c) \<longleftrightarrow>
            spread_type req = u ''daily'' \<or> length (cards req) = 1) \<and>
         normalize_output req text0 =
           Inr (if spread_type req = u ''daily'' \<or> length (cards req) = 1
                then daily_finish c (headings_removed (opener_stripped text0))
                else strip (opener_stripped text0))"
proof -
  have b: "build_prompt req =
      Inr (if spread_type req = u ''daily'' \<or> length (cards req) = 1
           then daily_prompt c else multi_prompt (cards req))"
    using build_prompt_cases [OF assms] assms by (simp add: classified_daily_def)
  have n: "normalize_output req text0 =
      Inr (if spread_type req = u ''daily'' \<or> length (cards req) = 1
           then daily_finish c (headings_removed (opener_stripped text0))
           else strip (opener_stripped text0))"
    using normalize_output_cases [OF assms] by (simp add: classified_daily_def)
  have "build_prompt req = Inr (daily_prompt c) \<longleftrightarrow>
      spread_type req = u ''daily'' \<or> length (cards req) = 1"
    using b daily_prompt_neq_multi [of c "cards req"] by (auto split: if_splits)
  then show ?thesis using b n by blast
qed

theorem daily_classification_shared_witness:
  "build_prompt single_fool = Inr (daily_prompt the_fool) \<and>
   normalize_output single_fool (u ''Hi'') =
     Inr (daily_finish the_fool (headings_removed (opener_stripped (u ''Hi'')))) \<and>
   build_prompt two_cards = Inr (multi_prompt [the_fool, the_sun]) \<and>
   normalize_output two_cards (u ''Hi'') = Inr (strip (opener_stripped (u ''Hi'')))"
  using daily_classification_shared [of single_fool the_fool "[]" "u ''Hi''"]
    daily_classification_shared [of two_cards the_fool "[the_sun]" "u ''Hi''"]
  by (simp add: single_fool_def two_cards_def u_def)

subsection \<open>C5: the header a daily text lacks\<close>

text \<open>
  C5. For a daily request, when the text left by the opener step and the heading step
  does not contain \<open>**Daily Card\<close>, \<open>normalize_output\<close> returns the header line
  \<open>**Daily Card\<close>, em dash, the first card's name and its orientation in brackets,
  \<open>:**\<close>, followed by a newline and that text (the newline is trimmed away when the
  text is empty). For the card The Sun, reversed, the result starts with
  \<open>**Daily Card\<close>, em dash, \<open>The Sun (Reversed):**\<close>.
\<close>

theorem daily_header_prepended:
  assumes "cards req = c # cs"
    and "spread_type req = u ''daily'' \<or> length (cards req) = 1"
    and "\<not> sublist daily_marker (headings_removed (opener_stripped text0))"
  shows "normalize_output req text0 =
           Inr (daily_header (name c) (if is_reversed c then u ''Reversed'' else u ''Upright'') @
                (if headings_removed (opener_stripped text0) = [] then []
                 else nl # headings_removed (opener_stripped text0)))"
proof -
  let ?t = "headings_removed (opener_stripped text0)"
  have s: "strip ?t = ?t" by (simp add: headings_removed_def)
  have "normalize_output req text0 = Inr (daily_finish c ?t)"
    using normalize_output_cases [OF assms(1)] assms(2) by (simp add: classified_daily_def)
  then show ?thesis
    using daily_finish_header [OF s assms(3), of c] by (simp add: orientation_of_def)
qed

theorem daily_header_prepended_witness:
  "normalize_output daily_sun (u ''A bright day.'') =
     Inr (u ''**Daily Card '' @ [em_dash] @ u '' The Sun (Reversed):**'' @ [nl] @ u ''A bright day.'')"
proof -
  have t: "headings_removed (opener_stripped (u ''A bright day.'')) = u ''A bright day.''"
    by (simp add: headings_removed_def opener_stripped_def re_sub_opener re_sub_ppf
        sub_scan.simps u_def isspace_def ci_lit_def nl_def em_dash_def opener_line_def
        opener_words_def heading_at_def heading_words_def strip_def lstrip_def rstrip_def)
  have m: "\<not> sublist daily_marker (u ''A bright day.'')"
    by (simp add: daily_marker_def u_def sublist_code(3))
  have c: "cards daily_sun = the_sun # []" "spread_type daily_sun = u ''daily''"
    by (simp_all add: daily_sun_def)
  show ?thesis
    using daily_header_prepended [of daily_sun the_sun "[]" "u ''A bright day.''"] c t m
    by (simp add: the_sun_def daily_header_def u_def)
qed

subsection \<open>C8: an empty list of cards\<close>

text \<open>
  C8. For a request without cards the handler ends with the HTTP error 400 and the
  detail \<open>No cards provided\<close>, whatever the completion service would do, and makes no call
  to it. No prompt is built: for the \<open>spread_type\<close> \<open>"daily"\<close> building one
  would raise, and the handler would end with that exception instead.
\<close>

theorem empty_cards_rejected:
  assumes "cards req = []"
  shows "interpret_spread client req = (Inl (HTTPException 400 (u ''No cards provided'')), []) \<and>
         (spread_type req = u ''daily'' \<longrightarrow> build_prompt req = Inl IndexError)"
  using assms by (simp add: interpret_spread_def build_prompt_def)

theorem empty_cards_rejected_witness:
  "interpret_spread (\<lambda>call. Returns None) \<lparr>spread_type = u ''daily'', cards = []\<rparr> =
     (Inl (HTTPException 400 (u ''No cards provided'')), []) \<and>
   build_prompt \<lparr>spread_type = u ''daily'', cards = []\<rparr> = Inl IndexError"
  using empty_cards_rejected [of "\<lparr>spread_type = u ''daily'', cards = []\<rparr>" "\<lambda>call. Returns None"]
  by simp

subsection \<open>C9: a failing completion call\<close>

text \<open>
  C9. For a request with at least one card, when the call to the completion service
  raises an error with message \<open>m\<close>, the handler ends with the HTTP error 500 and the
  detail \<open>OpenAI request failed: \<close> followed by \<open>m\<close>. It has made that one call and
  no other, and returns no interpretation.
\<close>

theorem completion_failure_is_500:
  assumes "cards req \<noteq> []"
    and "build_prompt req = Inr prompt"
    and "client (completion_request prompt) = Raises m"
  shows "interpret_spread client req =
           (Inl (HTTPException 500 (u ''OpenAI request failed: '' @ m)),
            [completion_request prompt])"
  using assms by (simp add: interpret_spread_def)

theorem completion_failure_is_500_witness:
  "interpret_spread (\<lambda>call. Raises (u ''timeout'')) daily_sun =
     (Inl (HTTPException 500 (u ''OpenAI request failed: timeout'')),
      [completion_request (daily_prompt the_sun)])"
proof -
  have c: "cards daily_sun = the_sun # []" "spread_type daily_sun = u ''daily''"
    by (simp_all add: daily_sun_def)
  have b: "build_prompt daily_sun = Inr (daily_prompt the_sun)"
    using build_prompt_cases [OF c(1)] c(2) by (simp add: classified_daily_def)
  show ?thesis
    using completion_failure_is_500 [of daily_sun "daily_prompt the_sun"
        "\<lambda>call. Raises (u ''timeout'')" "u ''timeout''"] b c
    by (simp add: u_def)
qed

subsection \<open>C10: what every daily result has\<close>

text \<open>
  C10. For a daily request with at least one card and any text, \<open>normalize_output\<close>
  returns a string that contains \<open>**Daily Card\<close> and neither starts nor ends with a
  white-space character.
\<close>

theorem daily_output_has_marker_and_is_trimmed:
  assumes "cards req \<noteq> []" and "spread_type req = u ''daily'' \<or> length (cards req) = 1"
  shows "\<exists>out. normalize_output req text0 = Inr out \<and> sublist daily_marker out \<and>
           out \<noteq> [] \<and> \<not> isspace (hd out) \<and> \<not> isspace (last out)"
proof -
  obtain c cs where cs: "cards req = c # cs" using assms(1) by (cases "cards req") auto
  let ?t = "headings_removed (opener_stripped text0)"
  let ?out = "daily_finish c ?t"
  have out: "normalize_output req text0 = Inr ?out"
    using assms(2) normalize_output_cases [OF cs] by (simp add: classified_daily_def)
  have p: "sublist daily_marker ?out" "strip ?out = ?out"
    using daily_finish_props [of ?t c]
    by (simp_all add: headings_removed_def)
  then have ne: "?out \<noteq> []" using sublist_nonempty by blast
  then have "\<not> isspace (hd ?out) \<and> \<not> isspace (last ?out)"
    using strip_hd_last [of ?out] p(2) by simp
  then show ?thesis using out p ne by blast
qed

theorem daily_output_has_marker_and_is_trimmed_witness:
  "\<exists>out. normalize_output single_fool (u ''  Sure thing.  '') = Inr out \<and>
     sublist daily_marker out \<and> out \<noteq> [] \<and> \<not> isspace (hd out) \<and> \<not> isspace (last out)"
  using daily_output_has_marker_and_is_trimmed [of single_fool "u ''  Sure thing.  ''"]
  by (simp add: single_fool_def)

subsection \<open>C2: the contents of the daily prompt\<close>

text \<open>
  C2, as the claim states it, fails: the prompt is trimmed as a whole, so a meaning text
  that ends with white space is not in it. Here the meaning of the first card is
  \<open>New beginnings.\<close> followed by a space, and the prompt ends with the full stop.
\<close>

theorem daily_prompt_meaning_counterexample:
  "spread_type daily_fool_padded = u ''daily'' \<and>
   is_reversed (hd (cards daily_fool_padded)) = False \<and>
   upright_meaning (hd (cards daily_fool_padded)) = u ''New beginnings. '' \<and>
   build_prompt daily_fool_padded =
     Inr (daily_body (u ''The Fool'') (u ''Upright'') @ [nl] @ u ''New beginnings.'') \<and>
   \<not> sublist (u ''New beginnings. '')
        (daily_body (u ''The Fool'') (u ''Upright'') @ [nl] @ u ''New beginnings.'')"
proof -
  have c: "cards daily_fool_padded = the_fool_padded # []"
      "spread_type daily_fool_padded = u ''daily''"
    by (simp_all add: daily_fool_padded_def)
  have b: "build_prompt daily_fool_padded = Inr (daily_prompt the_fool_padded)"
    using build_prompt_cases [OF c(1)] c(2) by (simp add: classified_daily_def)
  have p: "daily_prompt the_fool_padded =
      daily_body (u ''The Fool'') (u ''Upright'') @ [nl] @ u ''New beginnings.''"
    unfolding daily_prompt_eq
    by (simp add: the_fool_padded_def the_fool_def orientation_of_def meaning_of_def
        rstrip_def u_def isspace_def)
  have n: "\<not> sublist (u ''New beginnings. '')
      (daily_body (u ''The Fool'') (u ''Upright'') @ [nl] @ u ''New beginnings.'')"
    by (simp add: daily_body_def u_def nl_def em_dash_def en_dash_def sublist_code(3))
  show ?thesis using b p n c
    by (simp add: the_fool_padded_def the_fool_def)
qed

text \<open>
  C2, amended. For a request with at least one card that has the \<open>spread_type\<close>
  \<open>"daily"\<close> or exactly one card, \<open>build_prompt\<close> returns the fixed text of the
  daily prompt, which contains \<open>SINGLE CARD daily draw\<close>, followed on a new line by the
  meaning text of the first card for its orientation (\<open>reversed_meaning\<close> when
  \<open>is_reversed\<close>, else \<open>upright_meaning\<close>) without its trailing white space; the
  line is left out when the meaning is blank. So the prompt contains the literal and the
  meaning text without its trailing white space.
\<close>

theorem daily_prompt_contents:
  assumes "cards req = c # cs"
    and "spread_type req = u ''daily'' \<or> length (cards req) = 1"
    and "m = (if is_reversed c then reversed_meaning c else upright_meaning c)"
  shows "\<exists>prompt. build_prompt req = Inr prompt \<and>
           prompt = daily_body (name c) (if is_reversed c then u ''Reversed'' else u ''Upright'') @
                    (if rstrip m = [] then [] else nl # rstrip m) \<and>
           sublist (u ''SINGLE CARD daily draw'') prompt \<and>
           sublist (rstrip m) prompt \<and> suffix (rstrip m) prompt"
proof -
  define b where "b = daily_body (name c) (if is_reversed c then u ''Reversed'' else u ''Upright'')"
  define tail where "tail = (if rstrip m = [] then [] else nl # rstrip m)"
  have m: "meaning_of c = m" using assms(3) by (simp add: meaning_of_def)
  have sp: "(\<forall>x\<in>set m. isspace x) \<longleftrightarrow> rstrip m = []"
    by (auto simp: rstrip_def dropWhile_eq_Nil_conv)
  have bp: "build_prompt req = Inr (daily_prompt c)"
    using build_prompt_cases [OF assms(1)] assms(2) by (simp add: classified_daily_def)
  have p: "daily_prompt c = b @ tail"
    unfolding daily_prompt_eq m b_def tail_def orientation_of_def using sp by simp
  obtain ps ss where "b = ps @ u ''SINGLE CARD daily draw'' @ ss"
    using daily_body_literal [of "name c" "if is_reversed c then u ''Reversed'' else u ''Upright''"]
    unfolding sublist_def b_def by blast
  then have "b @ tail = ps @ u ''SINGLE CARD daily draw'' @ (ss @ tail)" by simp
  then have l: "sublist (u ''SINGLE CARD daily draw'') (b @ tail)"
    unfolding sublist_def by blast
  have "b @ tail = (if rstrip m = [] then b else b @ [nl]) @ rstrip m"
    by (simp add: tail_def)
  then have s: "suffix (rstrip m) (b @ tail)"
    unfolding suffix_def by blast
  then have i: "sublist (rstrip m) (b @ tail)" by (rule suffix_imp_sublist)
  have "build_prompt req = Inr (b @ tail) \<and> b @ tail = b @ tail \<and>
      sublist (u ''SINGLE CARD daily draw'') (b @ tail) \<and>
      sublist (rstrip m) (b @ tail) \<and> suffix (rstrip m) (b @ tail)"
    using bp p l s i by simp
  then show ?thesis unfolding b_def tail_def by (rule exI)
qed

theorem daily_prompt_contents_witness:
  "\<exists>prompt. build_prompt daily_fool_padded = Inr prompt \<and>
     prompt = daily_body (u ''The Fool'') (u ''Upright'') @ nl # u ''New beginnings.'' \<and>
     sublist (u ''SINGLE CARD daily draw'') prompt \<and>
     sublist (u ''New beginnings.'') prompt \<and> suffix (u ''New beginnings.'') prompt"
proof -
  have r: "rstrip (u ''New beginnings. '') = u ''New beginnings.''"
    by (simp add: rstrip_def u_def isspace_def)
  have n: "u ''New beginnings.'' \<noteq> []" by (simp add: u_def)
  have c: "cards daily_fool_padded = the_fool_padded # []"
      "spread_type daily_fool_padded = u ''daily'' \<or> length (cards daily_fool_padded) = 1"
      "u ''New beginnings. '' =
        (if is_reversed the_fool_padded then reversed_meaning the_fool_padded
         else upright_meaning the_fool_padded)"
    by (simp_all add: daily_fool_padded_def the_fool_padded_def the_fool_def)
  have f: "name the_fool_padded = u ''The Fool''" "is_reversed the_fool_padded = False"
    by (simp_all add: the_fool_padded_def the_fool_def)
  show ?thesis
    using daily_prompt_contents [OF c] unfolding r f using n by simp
qed

subsection \<open>C3: the lines of the multi-card prompt\<close>

text \<open>
  C3, as the claim states it, fails: a card field may hold a newline, and the prompt then
  has more lines of the form than cards. Here two cards give three such lines.
\<close>

theorem multi_prompt_lines_counterexample:
  "spread_type two_cards_crafted \<noteq> u ''daily'' \<and>
   length (cards two_cards_crafted) = 2 \<and>
   build_prompt two_cards_crafted = Inr (multi_prompt (cards two_cards_crafted)) \<and>
   filter (prefix (u ''- Position: '')) (split_lines (multi_prompt (cards two_cards_crafted))) =
     [u ''- Position: Past | Card: The Fool | Orientation: Upright | MeaningRef: x'',
      u ''- Position: Future | Card: The World | Orientation: Upright | MeaningRef: New beginnings.'',
      u ''- Position: Present | Card: The Sun | Orientation: Reversed | MeaningRef: Clouded optimism.'']"
proof -
  define a where "a = u ''- Position: Past | Card: The Fool | Orientation: Upright | MeaningRef: x''"
  define b where
    "b = u ''- Position: Future | Card: The World | Orientation: Upright | MeaningRef: New beginnings.''"
  define l where
    "l = u ''- Position: Present | Card: The Sun | Orientation: Reversed | MeaningRef: Clouded optimism.''"
  have d: "\<not> classified_daily two_cards_crafted"
    by (simp add: classified_daily_def two_cards_crafted_def u_def)
  have c: "map card_line (cards two_cards_crafted) = [a @ [nl] @ b, l]"
    by (simp add: two_cards_crafted_def the_fool_two_lines_def the_fool_def the_sun_def
        card_line_def a_def b_def l_def u_def)
  have "multi_prompt (cards two_cards_crafted) = join [nl] (multi_lines @ (a @ [nl] @ b) # [l])"
    by (simp add: multi_prompt_def c)
  also have "\<dots> = join [nl] (multi_lines @ a # b # [l])"
    by (rule join_split)
  finally have j: "multi_prompt (cards two_cards_crafted) = join [nl] (multi_lines @ [a, b, l])"
    by simp
  have n: "\<forall>x\<in>set (multi_lines @ [a, b, l]). nl \<notin> set x"
    using multi_lines_no_nl by (simp add: a_def b_def l_def u_def nl_def)
  have s: "split_lines (multi_prompt (cards two_cards_crafted)) = multi_lines @ [a, b, l]"
    unfolding j using n by (intro split_lines_join) simp_all
  have p: "prefix (u ''- Position: '') a" "prefix (u ''- Position: '') b" "prefix (u ''- Position: '') l"
    by (simp_all add: a_def b_def l_def u_def)
  have "filter (prefix (u ''- Position: '')) (split_lines (multi_prompt (cards two_cards_crafted))) =
      [a, b, l]"
    unfolding s using p by (simp add: multi_lines_no_card_line)
  then show ?thesis using build_prompt_multi [OF d]
    unfolding a_def b_def l_def by (simp add: two_cards_crafted_def u_def)
qed

text \<open>
  C3, amended. For a request that is not daily in which no card's position, name or
  meaning text for its orientation holds a newline, the lines of the prompt that
  \<open>build_prompt\<close> returns are the twelve fixed lines followed by one line per card, in
  the order of the cards; these are the only lines that start with \<open>- Position: \<close>,
  and the line of a card is \<open>- Position: \<close>, its position, \<open> | Card: \<close>, its
  name, \<open> | Orientation: \<close>, \<open>Reversed\<close> when \<open>is_reversed\<close> and \<open>Upright\<close>
  otherwise, \<open> | MeaningRef: \<close> and \<open>reversed_meaning\<close> when \<open>is_reversed\<close> and
  \<open>upright_meaning\<close> otherwise.
\<close>

theorem multi_prompt_lines:
  assumes "spread_type req \<noteq> u ''daily''" and "length (cards req) \<noteq> 1"
    and "\<forall>c\<in>set (cards req). nl \<notin> set (position c) \<and> nl \<notin> set (name c) \<and>
           nl \<notin> set (if is_reversed c then reversed_meaning c else upright_meaning c)"
  shows "\<exists>prompt. build_prompt req = Inr prompt \<and>
           split_lines prompt = multi_lines @ map card_line (cards req) \<and>
           filter (prefix (u ''- Position: '')) (split_lines prompt) = map card_line (cards req) \<and>
           (\<forall>c. card_line c =
              u ''- Position: '' @ position c @ u '' | Card: '' @ name c @ u '' | Orientation: '' @
              (if is_reversed c then u ''Reversed'' else u ''Upright'') @ u '' | MeaningRef: '' @
              (if is_reversed c then reversed_meaning c else upright_meaning c))"
proof -
  have d: "\<not> classified_daily req" using assms(1,2) by (simp add: classified_daily_def)
  have b: "build_prompt req = Inr (multi_prompt (cards req))"
    using build_prompt_multi [OF d] .
  have "\<forall>l\<in>set (multi_lines @ map card_line (cards req)). nl \<notin> set l"
    using multi_lines_no_nl assms(3) card_line_no_nl by (auto simp: meaning_of_def)
  moreover have "multi_lines @ map card_line (cards req) \<noteq> []"
    by (simp add: multi_lines_def)
  ultimately have s: "split_lines (multi_prompt (cards req)) = multi_lines @ map card_line (cards req)"
    unfolding multi_prompt_def by (intro split_lines_join) auto
  have f: "filter (prefix (u ''- Position: '')) (multi_lines @ map card_line (cards req)) =
      map card_line (cards req)"
    by (simp add: multi_lines_no_card_line card_line_prefix filter_map comp_def)
  have e: "\<forall>c. card_line c =
      u ''- Position: '' @ position c @ u '' | Card: '' @ name c @ u '' | Orientation: '' @
      (if is_reversed c then u ''Reversed'' else u ''Upright'') @ u '' | MeaningRef: '' @
      (if is_reversed c then reversed_meaning c else upright_meaning c)"
    by (simp add: card_line_def)
  show ?thesis using b s f e by simp
qed

theorem multi_prompt_lines_witness:
  "\<exists>prompt. build_prompt two_cards = Inr prompt \<and>
     split_lines prompt = multi_lines @
       [u ''- Position: Past | Card: The Fool | Orientation: Upright | MeaningRef: New beginnings.'',
        u ''- Position: Present | Card: The Sun | Orientation: Reversed | MeaningRef: Clouded optimism.''] \<and>
     filter (prefix (u ''- Position: '')) (split_lines prompt) =
       [u ''- Position: Past | Card: The Fool | Orientation: Upright | MeaningRef: New beginnings.'',
        u ''- Position: Present | Card: The Sun | Orientation: Reversed | MeaningRef: Clouded optimism.'']"
proof -
  have h: "spread_type two_cards \<noteq> u ''daily''" "length (cards two_cards) \<noteq> 1"
    "\<forall>c\<in>set (cards two_cards). nl \<notin> set (position c) \<and> nl \<notin> set (name c) \<and>
       nl \<notin> set (if is_reversed c then reversed_meaning c else upright_meaning c)"
    by (simp_all add: two_cards_def the_fool_def the_sun_def u_def nl_def)
  have l: "map card_line (cards two_cards) =
     [u ''- Position: Past | Card: The Fool | Orientation: Upright | MeaningRef: New beginnings.'',
      u ''- Position: Present | Card: The Sun | Orientation: Reversed | MeaningRef: Clouded optimism.'']"
    by (simp add: two_cards_def the_fool_def the_sun_def card_line_def u_def)
  show ?thesis using multi_prompt_lines [OF h] l by auto
qed

subsection \<open>C6: a response without text\<close>

text \<open>
  C6, as the claim states it, fails for a daily request: the fallback text goes through
  \<open>normalize_output\<close> as any other text does, and it has no \<open>**Daily Card\<close> in
  it, so the header is put in front of it. Here the response has no output items.
\<close>

theorem empty_completion_daily_counterexample:
  "strip (concat (collect_text_parts (Some []))) = [] \<and>
   interpret_spread (\<lambda>call. Returns (Some [])) daily_sun =
     (Inr \<lparr>response_interpretation =
        u ''**Daily Card '' @ [em_dash] @ u '' The Sun (Reversed):**'' @ [nl] @ fallback_text\<rparr>,
      [completion_request (daily_prompt the_sun)]) \<and>
   u ''**Daily Card '' @ [em_dash] @ u '' The Sun (Reversed):**'' @ [nl] @ fallback_text \<noteq>
     fallback_text"
proof -
  have c: "cards daily_sun = the_sun # []" by (simp add: daily_sun_def)
  have d: "classified_daily daily_sun" by (simp add: classified_daily_def daily_sun_def)
  have h: "daily_header (name the_sun) (orientation_of the_sun) =
      u ''**Daily Card '' @ [em_dash] @ u '' The Sun (Reversed):**''"
    by (simp add: daily_header_def the_sun_def orientation_of_def u_def)
  have "interpret_spread (\<lambda>call. Returns (Some [])) daily_sun =
     (Inr \<lparr>response_interpretation =
        daily_header (name the_sun) (orientation_of the_sun) @ nl # fallback_text\<rparr>,
      [completion_request (daily_prompt the_sun)])"
    using interpret_spread_fallback [of daily_sun the_sun "[]" "daily_prompt the_sun"
        "\<lambda>call. Returns (Some [])" "Some []"] c build_prompt_daily_sun empty_output_text d
    by simp
  then show ?thesis unfolding h by (simp add: empty_output_text)
qed

text \<open>
  C6, amended. For a request with at least one card, when the completion call returns
  and the texts of the parts of its \<open>message\<close> items, joined and trimmed, are the empty
  string, the handler returns what \<open>normalize_output\<close> makes of the fallback text
  \<open>I'm sorry, I couldn't interpret this spread right now.\<close>: that text for a request
  that is not daily, and for a daily request the header line of the first card, a newline
  and that text. It has made the one call.
\<close>

theorem empty_completion_gives_fallback:
  assumes "cards req = c # cs"
    and "build_prompt req = Inr prompt"
    and "client (completion_request prompt) = Returns output"
    and "strip (concat (collect_text_parts output)) = []"
  shows "interpret_spread client req =
           (Inr \<lparr>response_interpretation =
                   (if spread_type req = u ''daily'' \<or> length (cards req) = 1
                    then daily_header (name c)
                           (if is_reversed c then u ''Reversed'' else u ''Upright'') @
                         nl # fallback_text
                    else fallback_text)\<rparr>,
            [completion_request prompt]) \<and>
         fallback_text = u ''I'm sorry, I couldn't interpret this spread right now.''"
  using interpret_spread_fallback [of req c cs prompt client "output"] assms
  by (simp add: classified_daily_def orientation_of_def fallback_text_def)

theorem empty_completion_gives_fallback_witness:
  "interpret_spread (\<lambda>call. Returns blank_output) two_cards =
     (Inr \<lparr>response_interpretation = u ''I'm sorry, I couldn't interpret this spread right now.''\<rparr>,
      [completion_request (multi_prompt [the_fool, the_sun])])"
proof -
  have c: "cards two_cards = the_fool # [the_sun]" by (simp add: two_cards_def)
  have d: "\<not> (spread_type two_cards = u ''daily'' \<or> length (cards two_cards) = 1)"
    by (simp add: two_cards_def u_def)
  show ?thesis
    using empty_completion_gives_fallback [of two_cards the_fool "[the_sun]"
        "multi_prompt [the_fool, the_sun]" "\<lambda>call. Returns blank_output" blank_output]
      c build_prompt_two_cards blank_output_text d
    by (simp add: fallback_text_def)
qed

subsection \<open>C4: the opener line\<close>

text \<open>
  C4. The first step of \<open>normalize_output\<close> removes one leading line exactly when the
  text is white space, then one of \<open>Certainly!\<close>, \<open>Sure!\<close>, \<open>Of course!\<close>,
  \<open>Absolutely!\<close>, \<open>Okay!\<close>, \<open>Alright!\<close> in any case (as the pattern's
  \<open>IGNORECASE\<close> matches letters), then any text without a newline, then one or more
  newlines: what goes on to the later steps is the rest behind these newlines, and the
  text itself when it has no such shape. For a daily request and the raw text
  \<open>Certainly! Here you go.\<close>, two newlines, the header line of The Fool, a newline
  and \<open>Text.\<close>, the result is that text from the header line on, unchanged.
\<close>

theorem opener_line_removed:
  assumes "cards req = c # cs"
  shows "(opener_shape text0 rest \<longrightarrow>
            re_sub opener_re [] text0 = rest \<and>
            normalize_output req text0 = Inr (after_opener req c rest)) \<and>
         ((\<forall>rest'. \<not> opener_shape text0 rest') \<longrightarrow>
            re_sub opener_re [] text0 = text0 \<and>
            normalize_output req text0 = Inr (after_opener req c text0)) \<and>
         (spread_type req = u ''daily'' \<or> length (cards req) = 1 \<longrightarrow>
            normalize_output req example_raw = Inr example_rest)"
proof -
  have n: "normalize_output req x = Inr (after_opener req c (re_sub opener_re [] x))" for x
    using normalize_output_after_opener [OF assms] .
  have a: "re_sub opener_re [] text0 = rest" if "opener_shape text0 rest"
    using that by (simp add: re_sub_opener opener_line_shape [symmetric])
  have b: "re_sub opener_re [] text0 = text0" if "\<forall>rest'. \<not> opener_shape text0 rest'"
  proof -
    have "opener_line text0 = None"
      using that opener_line_shape by (cases "opener_line text0") auto
    then show ?thesis by (simp add: re_sub_opener)
  qed
  have e: "re_sub opener_re [] example_raw = example_rest"
    by (simp add: re_sub_opener example_opener_line)
  have "after_opener req c example_rest = example_rest" if "classified_daily req"
    using that example_rest_finish by (simp add: after_opener_def daily_finish_def)
  then have x: "spread_type req = u ''daily'' \<or> length (cards req) = 1 \<longrightarrow>
      normalize_output req example_raw = Inr example_rest"
    using n [of example_raw] e by (simp add: classified_daily_def)
  show ?thesis using a b x n [of text0] by auto
qed

theorem opener_line_removed_witness:
  "opener_shape example_raw example_rest \<and>
   re_sub opener_re [] example_raw = example_rest \<and>
   normalize_output daily_sun example_raw = Inr example_rest \<and>
   (\<forall>rest'. \<not> opener_shape (u ''Surely not.'' @ [nl] @ u ''Text.'') rest') \<and>
   re_sub opener_re [] (u ''Surely not.'' @ [nl] @ u ''Text.'') = u ''Surely not.'' @ [nl] @ u ''Text.''"
proof -
  have c: "cards daily_sun = the_sun # []"
      "spread_type daily_sun = u ''daily'' \<or> length (cards daily_sun) = 1"
    by (simp_all add: daily_sun_def)
  have s: "opener_shape example_raw example_rest"
    using example_opener_line opener_line_shape by blast
  have "opener_line (u ''Surely not.'' @ [nl] @ u ''Text.'') = None"
    by (simp add: eval_text)
  then have t: "\<forall>rest'. \<not> opener_shape (u ''Surely not.'' @ [nl] @ u ''Text.'') rest'"
    by (simp add: opener_line_shape [symmetric])
  show ?thesis
    using opener_line_removed [OF c(1), of example_raw example_rest]
      opener_line_removed [OF c(1), of "u ''Surely not.'' @ [nl] @ u ''Text.''"] s t c(2)
    by blast
qed

end
